theory Spec2Isabelle
  imports Complex_Main "HOL-Library.Sublist"
begin

section \<open>Streaming transcript accumulator\<close>

text \<open>
  A shallow embedding of \<^verbatim>\<open>src/asr/transcript_accumulator.py\<close>: the tokenizer helpers
  and the class \<^verbatim>\<open>TranscriptAccumulator\<close>.

  Conventions of the model.
  \<^item> Python strings are \<^typ>\<open>string\<close>, whose characters are read as the code points
    below 256; on them the character classes of the regular expressions and
    \<^verbatim>\<open>str.lower\<close> are Python's. The tokenizer and the detokenizer are defined over any
    type of characters, with the character classes as arguments.
  \<^item> Python integers are \<^typ>\<open>int\<close> (lengths and indexes that cannot be negative are
    \<^typ>\<open>nat\<close>).
  \<^item> The clock \<^verbatim>\<open>time_fn\<close> yields seconds. Its values are modelled as exact rationals,
    so \<^verbatim>\<open>int(x * 1000)\<close> is truncation of the exact product; rounding of binary
    floating point is outside the model.
  \<^item> The clock is an external, stateful function: the k-th call made to it returns
    \<open>clk k\<close>. The accumulator state carries the number of calls made so far in the
    field \<open>time_calls\<close>, which has no counterpart in the source object.
  \<^item> Logging has no effect on the state and is left out.
  \<^item> Every indexing expression of the source that could raise \<^verbatim>\<open>IndexError\<close> is a
    checked access in the model, so operations return \<open>py_error + result\<close>.
\<close>

subsection \<open>Tokenization helpers\<close>

text \<open>
  \<^verbatim>\<open>_TOKENIZER = re.compile(r"[A-Za-z0-9]+(?:'[A-Za-z0-9]+)?|[^\sA-Za-z0-9]")\<close> and
  \<^verbatim>\<open>findall\<close>, over any type of characters: \<open>alnum\<close> is the class \<^verbatim>\<open>[A-Za-z0-9]\<close>,
  \<open>space\<close> is the class \<^verbatim>\<open>\s\<close> and \<open>apostrophe\<close> is the character \<^verbatim>\<open>'\<close>. At an
  alphanumeric character the longest run is taken, then an apostrophe with the longest
  run after it when there is one; any other character that is not whitespace is a token
  of its own; whitespace is skipped.
\<close>

function tokenize_with :: "('c \<Rightarrow> bool) \<Rightarrow> ('c \<Rightarrow> bool) \<Rightarrow> 'c \<Rightarrow> 'c list \<Rightarrow> 'c list list" where
  "tokenize_with alnum space apostrophe [] = []"
| "tokenize_with alnum space apostrophe (c # cs) =
     (if alnum c then
        (case dropWhile alnum cs of
           q # d # rest \<Rightarrow>
             if q = apostrophe \<and> alnum d
             then (c # takeWhile alnum cs @ q # d # takeWhile alnum rest)
                    # tokenize_with alnum space apostrophe (dropWhile alnum rest)
             else (c # takeWhile alnum cs) # tokenize_with alnum space apostrophe (q # d # rest)
         | rest \<Rightarrow> (c # takeWhile alnum cs) # tokenize_with alnum space apostrophe rest)
      else if space c then tokenize_with alnum space apostrophe cs
      else [c] # tokenize_with alnum space apostrophe cs)"
  by pat_completeness auto
termination
proof (relation "measure (\<lambda>(alnum, space, apostrophe, cs). length cs)")
  have le: "length ys \<le> length xs" if "dropWhile P xs = ys" for P and xs ys :: "'c list"
    using that length_dropWhile_le [of P xs] by simp
  have le2: "length (dropWhile P zs) < Suc (length xs)"
    if "dropWhile P xs = q # d # zs" for P q d and xs zs :: "'c list"
    using le [OF that] length_dropWhile_le [of P zs] by simp
  fix alnum space :: "'c \<Rightarrow> bool" and apostrophe c x21 x21a :: 'c and cs x22 x22a :: "'c list"
  let ?m = "measure (\<lambda>(alnum :: 'c \<Rightarrow> bool, space :: 'c \<Rightarrow> bool, apostrophe :: 'c, cs). length cs)"
  show "wf ?m" by simp
  show "((alnum, space, apostrophe, cs), alnum, space, apostrophe, c # cs) \<in> ?m" by simp
  show "dropWhile alnum cs = [] \<Longrightarrow> ((alnum, space, apostrophe, []), alnum, space, apostrophe, c # cs) \<in> ?m"
    by simp
  show "dropWhile alnum cs = x21 # x22 \<Longrightarrow> x22 = []
          \<Longrightarrow> ((alnum, space, apostrophe, [x21]), alnum, space, apostrophe, c # cs) \<in> ?m"
    by (auto dest!: le)
  show "dropWhile alnum cs = x21 # x22 \<Longrightarrow> x22 = x21a # x22a
          \<Longrightarrow> ((alnum, space, apostrophe, dropWhile alnum x22a), alnum, space, apostrophe, c # cs) \<in> ?m"
    by (auto dest!: le2)
  show "dropWhile alnum cs = x21 # x22 \<Longrightarrow> x22 = x21a # x22a
          \<Longrightarrow> ((alnum, space, apostrophe, x21 # x21a # x22a), alnum, space, apostrophe, c # cs) \<in> ?m"
    by (auto dest!: le)
qed simp

text \<open>
  \<^verbatim>\<open>re.match(r"^[^\w\s]$", tok)\<close>: one character that is neither a word character nor
  whitespace, alone or before a final newline (where \<^verbatim>\<open>$\<close> matches too). \<open>word\<close> is the
  class \<^verbatim>\<open>\w\<close> and \<open>newline\<close> the character \<^verbatim>\<open>\n\<close>.
\<close>

definition is_punct_token_with :: "('c \<Rightarrow> bool) \<Rightarrow> ('c \<Rightarrow> bool) \<Rightarrow> 'c \<Rightarrow> 'c list \<Rightarrow> bool" where
  "is_punct_token_with word space newline tok =
     (case tok of
        [c] \<Rightarrow> \<not> word c \<and> \<not> space c
      | [c, nl] \<Rightarrow> \<not> word c \<and> \<not> space c \<and> nl = newline
      | _ \<Rightarrow> False)"

text \<open>
  The loop body and the result of \<^verbatim>\<open>detokenize\<close>: \<open>punct\<close> decides which tokens are
  glued to the token before them, \<open>blank\<close> is the character put before the others.
\<close>

definition detok_step :: "('c list \<Rightarrow> bool) \<Rightarrow> 'c \<Rightarrow> 'c list list \<Rightarrow> 'c list \<Rightarrow> 'c list list" where
  "detok_step punct blank out tok =
     (if out = [] then [tok]
      else if punct tok then butlast out @ [last out @ tok]
      else out @ [blank # tok])"

definition detokenize_with :: "('c list \<Rightarrow> bool) \<Rightarrow> 'c \<Rightarrow> 'c list list \<Rightarrow> 'c list" where
  "detokenize_with punct blank toks = concat (foldl (detok_step punct blank) [] toks)"

text \<open>
  The accumulator works on \<^typ>\<open>string\<close>, whose characters are read as the code points
  below 256. There \<open>is_space\<close> is Python's \<^verbatim>\<open>\s\<close>, \<open>is_word\<close> is \<^verbatim>\<open>\w\<close> and
  \<open>lower\<close> is \<^verbatim>\<open>str.lower\<close>; \<open>is_alnum\<close> is the ASCII class \<^verbatim>\<open>[A-Za-z0-9]\<close> that the
  pattern spells out.
\<close>

definition is_alnum :: "char \<Rightarrow> bool" where
  "is_alnum c = (let n = (of_char c :: nat) in
     (48 \<le> n \<and> n \<le> 57) \<or> (65 \<le> n \<and> n \<le> 90) \<or> (97 \<le> n \<and> n \<le> 122))"

definition is_space :: "char \<Rightarrow> bool" where
  "is_space c = (let n = (of_char c :: nat) in
     (9 \<le> n \<and> n \<le> 13) \<or> (28 \<le> n \<and> n \<le> 32) \<or> n = 133 \<or> n = 160)"

definition is_word :: "char \<Rightarrow> bool" where
  "is_word c = (let n = (of_char c :: nat) in
     is_alnum c \<or> n = 95 \<or> n = 170 \<or> n = 178 \<or> n = 179 \<or> n = 181 \<or> n = 185 \<or> n = 186
     \<or> (188 \<le> n \<and> n \<le> 190) \<or> (192 \<le> n \<and> n \<le> 214) \<or> (216 \<le> n \<and> n \<le> 246)
     \<or> (248 \<le> n \<and> n \<le> 255))"

definition upper_chars :: string where
  "upper_chars = ''ABCDEFGHIJKLMNOPQRSTUVWXYZ'' @
     [CHR 0xC0, CHR 0xC1, CHR 0xC2, CHR 0xC3, CHR 0xC4, CHR 0xC5, CHR 0xC6, CHR 0xC7,
      CHR 0xC8, CHR 0xC9, CHR 0xCA, CHR 0xCB, CHR 0xCC, CHR 0xCD, CHR 0xCE, CHR 0xCF,
      CHR 0xD0, CHR 0xD1, CHR 0xD2, CHR 0xD3, CHR 0xD4, CHR 0xD5, CHR 0xD6,
      CHR 0xD8, CHR 0xD9, CHR 0xDA, CHR 0xDB, CHR 0xDC, CHR 0xDD, CHR 0xDE]"

definition lower_chars :: string where
  "lower_chars = ''abcdefghijklmnopqrstuvwxyz'' @
     [CHR 0xE0, CHR 0xE1, CHR 0xE2, CHR 0xE3, CHR 0xE4, CHR 0xE5, CHR 0xE6, CHR 0xE7,
      CHR 0xE8, CHR 0xE9, CHR 0xEA, CHR 0xEB, CHR 0xEC, CHR 0xED, CHR 0xEE, CHR 0xEF,
      CHR 0xF0, CHR 0xF1, CHR 0xF2, CHR 0xF3, CHR 0xF4, CHR 0xF5, CHR 0xF6,
      CHR 0xF8, CHR 0xF9, CHR 0xFA, CHR 0xFB, CHR 0xFC, CHR 0xFD, CHR 0xFE]"

definition lower_char :: "char \<Rightarrow> char" where
  "lower_char c = (case map_of (zip upper_chars lower_chars) c of Some d \<Rightarrow> d | None \<Rightarrow> c)"

definition lower :: "string \<Rightarrow> string" where
  "lower s = map lower_char s"

definition tokenize :: "string \<Rightarrow> string list" where
  "tokenize txt = tokenize_with is_alnum is_space (CHR 0x27) txt"

definition is_punct_token :: "string \<Rightarrow> bool" where
  "is_punct_token tok = is_punct_token_with is_word is_space (CHR 0x0A) tok"

definition detokenize :: "string list \<Rightarrow> string" where
  "detokenize toks = detokenize_with is_punct_token (CHR '' '') toks"

text \<open>
  Python's \<^verbatim>\<open>\s\<close> on all of Unicode, for characters given as code points
  (\<^verbatim>\<open>str.isspace\<close>), and the class \<^verbatim>\<open>[A-Za-z0-9]\<close> there.
\<close>

definition unicode_space :: "nat \<Rightarrow> bool" where
  "unicode_space n =
     ((9 \<le> n \<and> n \<le> 13) \<or> (28 \<le> n \<and> n \<le> 32) \<or> n = 133 \<or> n = 160 \<or> n = 5760
      \<or> (8192 \<le> n \<and> n \<le> 8202) \<or> n = 8232 \<or> n = 8233 \<or> n = 8239 \<or> n = 8287
      \<or> n = 12288)"

definition unicode_alnum :: "nat \<Rightarrow> bool" where
  "unicode_alnum n = ((48 \<le> n \<and> n \<le> 57) \<or> (65 \<le> n \<and> n \<le> 90) \<or> (97 \<le> n \<and> n \<le> 122))"

fun lcp_len :: "string list \<Rightarrow> string list \<Rightarrow> nat" where
  "lcp_len (x # xs) (y # ys) = (if x = y then Suc (lcp_len xs ys) else 0)"
| "lcp_len _ _ = 0"

subsection \<open>Data model\<close>

text \<open>
  The dataclasses \<^verbatim>\<open>Token\<close>, \<^verbatim>\<open>Snapshot\<close> and \<^verbatim>\<open>TimedText\<close>. The field
  \<^verbatim>\<open>Token.text\<close> is \<open>tok_text\<close>, \<^verbatim>\<open>Snapshot.segment_id\<close> is \<open>snap_segment_id\<close> and
  \<^verbatim>\<open>TimedText.tokens\<close> is \<open>tt_tokens\<close>.
\<close>

record token =
  tok_text :: string
  confirmation_count :: int
  first_seen_time :: rat
  last_seen_time :: rat

record snapshot =
  tokens :: "token list"
  started_ms :: int
  expiry_ms :: int
  snap_segment_id :: int

record timed_text =
  ts_ms :: int
  tt_tokens :: "string list"

text \<open>
  The constructor arguments as the object stores them: \<open>max_segment_ms\<close> and
  \<open>partial_history_window_ms\<close> are the values \<^verbatim>\<open>int(max_segment_s * 1000)\<close> and
  \<^verbatim>\<open>int(partial_history_window_s * 1000)\<close>.
\<close>

record config =
  K :: int
  T_ms :: int
  max_segment_ms :: int
  awaiting_final_ttl_ms :: int
  partial_history_window_ms :: int
  dedup_enabled :: bool
  dedup_window_size :: int

definition default_config :: config where
  "default_config =
     \<lparr>K = 2, T_ms = 1400, max_segment_ms = 12000, awaiting_final_ttl_ms = 5000,
      partial_history_window_ms = 30000, dedup_enabled = True, dedup_window_size = 30\<rparr>"

text \<open>The dictionary \<^verbatim>\<open>_metrics\<close>; its key set is fixed by the constructor.\<close>

record metrics =
  late_final_hits :: int
  snapshot_expired_commits :: int
  orphan_rescues :: int
  segment_rolls :: int
  words_lost_pre_fix :: int
  total_partials :: int
  total_finals :: int
  tokens_committed_by_stability :: int
  tokens_committed_by_final :: int
  tokens_committed_by_flush :: int
  dedup_full_blocks :: int
  dedup_partial_overlaps :: int
  dedup_tokens_removed :: int

definition zero_metrics :: metrics where
  "zero_metrics =
     \<lparr>late_final_hits = 0, snapshot_expired_commits = 0, orphan_rescues = 0,
      segment_rolls = 0, words_lost_pre_fix = 0, total_partials = 0, total_finals = 0,
      tokens_committed_by_stability = 0, tokens_committed_by_final = 0,
      tokens_committed_by_flush = 0, dedup_full_blocks = 0, dedup_partial_overlaps = 0,
      dedup_tokens_removed = 0\<rparr>"

record accumulator =
  stable :: "string list"
  pending_tokens :: "token list"
  awaiting_final :: "snapshot list"
  partial_history :: "timed_text list"
  segment_id :: int
  segment_started_ms :: "int option"
  acc_metrics :: metrics
  time_calls :: nat

definition init_accumulator :: accumulator where
  "init_accumulator =
     \<lparr>stable = [], pending_tokens = [], awaiting_final = [], partial_history = [],
      segment_id = 0, segment_started_ms = None, acc_metrics = zero_metrics, time_calls = 0\<rparr>"

text \<open>The dictionary returned by \<^verbatim>\<open>build_display_event\<close>, its \<^verbatim>\<open>metadata\<close> flattened.\<close>

record display_event =
  ev_type :: string
  stable_text :: string
  partial_suffix :: string
  is_final :: bool
  ev_segment_id :: int
  md_pending_tokens :: nat
  md_awaiting_snapshots :: nat
  md_stable_word_count :: nat

datatype py_error = IndexError

type_synonym clock = "nat \<Rightarrow> rat"

subsection \<open>Python primitives\<close>

text \<open>\<^verbatim>\<open>int(x)\<close> on a number truncates towards zero.\<close>

definition py_int :: "rat \<Rightarrow> int" where
  "py_int x = (if 0 \<le> x then \<lfloor>x\<rfloor> else \<lceil>x\<rceil>)"

text \<open>
  The slice \<^verbatim>\<open>xs[-n:]\<close> for \<open>n \<ge> 0\<close>: the last \<open>n\<close> elements, all of \<open>xs\<close> when it
  is shorter, and all of \<open>xs\<close> for \<open>n = 0\<close> (then the slice is \<^verbatim>\<open>xs[0:]\<close>).
\<close>

definition py_suffix :: "nat \<Rightarrow> 'a list \<Rightarrow> 'a list" where
  "py_suffix n xs = (if n = 0 then xs else drop (length xs - n) xs)"

subsection \<open>Time helpers, metrics, display\<close>

definition time_fn :: "clock \<Rightarrow> accumulator \<Rightarrow> rat \<times> accumulator" where
  "time_fn clk s = (clk (time_calls s), s\<lparr>time_calls := Suc (time_calls s)\<rparr>)"

definition now_ms_of :: "clock \<Rightarrow> accumulator \<Rightarrow> int \<times> accumulator" where
  "now_ms_of clk s = (py_int (fst (time_fn clk s) * 1000), snd (time_fn clk s))"

text \<open>\<^verbatim>\<open>now = self._now_ms() if now_ms is None else now_ms\<close>\<close>

definition resolve_now :: "clock \<Rightarrow> int option \<Rightarrow> accumulator \<Rightarrow> int \<times> accumulator" where
  "resolve_now clk now_ms s = (case now_ms of None \<Rightarrow> now_ms_of clk s | Some n \<Rightarrow> (n, s))"

text \<open>Both call sites pass a resolved \<^verbatim>\<open>now\<close>, so the argument is never \<^verbatim>\<open>None\<close>.\<close>

definition ensure_segment_started :: "int \<Rightarrow> accumulator \<Rightarrow> accumulator" where
  "ensure_segment_started now s =
     (if segment_started_ms s = None then s\<lparr>segment_started_ms := Some now\<rparr> else s)"

definition get_metrics :: "accumulator \<Rightarrow> metrics" where
  "get_metrics s = acc_metrics s"

definition build_display_event :: "bool \<Rightarrow> accumulator \<Rightarrow> display_event" where
  "build_display_event fin s =
     \<lparr>ev_type = ''display'',
      stable_text = detokenize (stable s),
      partial_suffix = detokenize (map tok_text (pending_tokens s)),
      is_final = fin,
      ev_segment_id = segment_id s,
      md_pending_tokens = length (pending_tokens s),
      md_awaiting_snapshots = length (awaiting_final s),
      md_stable_word_count = length (stable s)\<rparr>"

subsection \<open>Partial history\<close>

definition record_partial_history :: "config \<Rightarrow> string list \<Rightarrow> int \<Rightarrow> accumulator \<Rightarrow> accumulator" where
  "record_partial_history cfg toks now s =
     (let hist = partial_history s @ [\<lparr>ts_ms = now, tt_tokens = toks\<rparr>];
          cutoff = now - partial_history_window_ms cfg
      in s\<lparr>partial_history := dropWhile (\<lambda>h. ts_ms h < cutoff) hist\<rparr>)"

subsection \<open>Deduplication\<close>

text \<open>
  The first loop of \<^verbatim>\<open>_deduplicate_before_commit\<close>: some window
  \<^verbatim>\<open>recent[i:i+len(new)]\<close>, \<open>i\<close> in \<^verbatim>\<open>range(len(recent) - len(new) + 1)\<close>, equals
  \<^verbatim>\<open>new\<close>.
\<close>

definition full_duplicate :: "string list \<Rightarrow> string list \<Rightarrow> bool" where
  "full_duplicate new_lower recent_lower =
     list_ex (\<lambda>i. take (length new_lower) (drop i recent_lower) = new_lower)
       [0 ..< length recent_lower - length new_lower + 1]"

text \<open>
  The second loop: \<^verbatim>\<open>overlap_len\<close> runs upwards over
  \<^verbatim>\<open>range(1, min(len(new), len(recent)) + 1)\<close> and the last match is kept.
\<close>

definition best_overlap :: "string list \<Rightarrow> string list \<Rightarrow> nat" where
  "best_overlap new_lower recent_lower =
     foldl (\<lambda>best overlap_len.
              if py_suffix overlap_len recent_lower = take overlap_len new_lower
              then overlap_len else best)
       0 [1 ..< min (length new_lower) (length recent_lower) + 1]"

definition deduplicate_before_commit ::
  "config \<Rightarrow> string list \<Rightarrow> accumulator \<Rightarrow> string list \<times> accumulator" where
  "deduplicate_before_commit cfg new_tokens s =
     (if \<not> dedup_enabled cfg \<or> new_tokens = [] \<or> stable s = [] then (new_tokens, s)
      else
        let window_size = max (dedup_window_size cfg) (int (length new_tokens) * 3);
            recent_stable = py_suffix (nat window_size) (stable s);
            new_text_lower = map lower new_tokens;
            recent_text_lower = map lower recent_stable
        in if length new_text_lower \<le> length recent_text_lower
              \<and> full_duplicate new_text_lower recent_text_lower
           then ([], s\<lparr>acc_metrics := (acc_metrics s)
                   \<lparr>dedup_full_blocks := dedup_full_blocks (acc_metrics s) + 1,
                    dedup_tokens_removed :=
                      dedup_tokens_removed (acc_metrics s) + int (length new_tokens)\<rparr>\<rparr>)
           else
             let best = best_overlap new_text_lower recent_text_lower
             in if best > 0
                then (drop best new_tokens, s\<lparr>acc_metrics := (acc_metrics s)
                        \<lparr>dedup_partial_overlaps := dedup_partial_overlaps (acc_metrics s) + 1,
                         dedup_tokens_removed :=
                           dedup_tokens_removed (acc_metrics s) + int best\<rparr>\<rparr>)
                else (new_tokens, s))"

subsection \<open>Promotion of pending tokens\<close>

text \<open>
  The collecting loop of \<^verbatim>\<open>_promote_leftmost_ready\<close>. Each iteration over a non-empty
  \<open>pending_tokens\<close> reads the clock once (also the iteration that breaks), then tests
  the K threshold before the T threshold. The age is measured against the clock, not
  against the \<^verbatim>\<open>now_ms\<close> argument.
\<close>

function promote_collect ::
  "config \<Rightarrow> clock \<Rightarrow> string list \<Rightarrow> accumulator \<Rightarrow> string list \<times> accumulator" where
  "promote_collect cfg clk batch s =
     (case pending_tokens s of
        [] \<Rightarrow> (batch, s)
      | tok # rest \<Rightarrow>
          if confirmation_count tok \<ge> K cfg
          then promote_collect cfg clk (batch @ [tok_text tok])
                 (s\<lparr>pending_tokens := rest,
                    acc_metrics := (acc_metrics s)
                      \<lparr>tokens_committed_by_stability :=
                         tokens_committed_by_stability (acc_metrics s) + 1\<rparr>,
                    time_calls := Suc (time_calls s)\<rparr>)
          else if py_int ((clk (time_calls s) - first_seen_time tok) * 1000) \<ge> T_ms cfg
          then promote_collect cfg clk (batch @ [tok_text tok])
                 (s\<lparr>pending_tokens := rest,
                    acc_metrics := (acc_metrics s)
                      \<lparr>tokens_committed_by_flush :=
                         tokens_committed_by_flush (acc_metrics s) + 1\<rparr>,
                    time_calls := Suc (time_calls s)\<rparr>)
          else (batch, s\<lparr>time_calls := Suc (time_calls s)\<rparr>))"
  by pat_completeness auto
termination
  by (relation "measure (\<lambda>(cfg, clk, batch, s). length (pending_tokens s))") auto

definition promote_leftmost_ready ::
  "config \<Rightarrow> clock \<Rightarrow> int \<Rightarrow> accumulator \<Rightarrow> nat \<times> accumulator" where
  "promote_leftmost_ready cfg clk now s =
     (let (batch_to_commit, s1) = promote_collect cfg clk [] s
      in if batch_to_commit \<noteq> []
         then let (filtered_tokens, s2) = deduplicate_before_commit cfg batch_to_commit s1
              in (length filtered_tokens, s2\<lparr>stable := stable s2 @ filtered_tokens\<rparr>)
         else (0, s1))"

subsection \<open>Snapshots\<close>

definition snapshot_pending :: "config \<Rightarrow> int \<Rightarrow> accumulator \<Rightarrow> accumulator" where
  "snapshot_pending cfg now s =
     (if pending_tokens s = [] then s
      else s\<lparr>awaiting_final := awaiting_final s @
               [\<lparr>tokens = pending_tokens s, started_ms = now,
                 expiry_ms = now + awaiting_final_ttl_ms cfg,
                 snap_segment_id = segment_id s\<rparr>]\<rparr>)"

function expire_snapshots :: "config \<Rightarrow> int \<Rightarrow> accumulator \<Rightarrow> accumulator" where
  "expire_snapshots cfg now s =
     (case awaiting_final s of
        [] \<Rightarrow> s
      | snap # rest \<Rightarrow>
          if expiry_ms snap \<le> now
          then expire_snapshots cfg now
                 (let ft = deduplicate_before_commit cfg (map tok_text (tokens snap))
                             (s\<lparr>awaiting_final := rest\<rparr>)
                  in (snd ft)\<lparr>stable := stable (snd ft) @ fst ft,
                       acc_metrics := (acc_metrics (snd ft))
                         \<lparr>snapshot_expired_commits :=
                            snapshot_expired_commits (acc_metrics (snd ft))
                              + int (length (fst ft))\<rparr>\<rparr>)
          else s)"
  by pat_completeness auto
termination
  by (relation "measure (\<lambda>(cfg, now, s). length (awaiting_final s))")
     (auto simp: deduplicate_before_commit_def Let_def)

subsection \<open>Overlap and reconciliation\<close>

text \<open>
  \<^verbatim>\<open>_longest_suffix_prefix\<close>: \<open>cand\<close> runs downwards from
  \<^verbatim>\<open>min(len(context), len(final_tokens))\<close>; the first case-folded match is returned.
\<close>

fun lsp_from :: "nat \<Rightarrow> string list \<Rightarrow> string list \<Rightarrow> nat" where
  "lsp_from 0 context final_tokens = 0"
| "lsp_from (Suc c) context final_tokens =
     (if map lower (py_suffix (Suc c) context) = map lower (take (Suc c) final_tokens)
      then Suc c
      else lsp_from c context final_tokens)"

definition longest_suffix_prefix :: "string list \<Rightarrow> string list \<Rightarrow> nat" where
  "longest_suffix_prefix context final_tokens =
     lsp_from (min (length context) (length final_tokens)) context final_tokens"

text \<open>
  \<^verbatim>\<open>_build_context_for_final\<close>. \<open>best\<close> is the tuple
  \<open>(ctx, snap_idx, len_st, len_snap, len_pend, overlap)\<close>; \<open>context_step\<close> is the body
  of the loop over \<^verbatim>\<open>enumerate(reversed(self.awaiting_final))\<close>.
\<close>

type_synonym best_context = "string list \<times> nat option \<times> nat \<times> nat \<times> nat \<times> nat"

definition best_overlap_of :: "best_context \<Rightarrow> nat" where
  "best_overlap_of best = snd (snd (snd (snd (snd best))))"

definition context_step ::
  "accumulator \<Rightarrow> string list \<Rightarrow> string list \<Rightarrow> string list \<Rightarrow>
     best_context \<Rightarrow> nat \<times> snapshot \<Rightarrow> best_context" where
  "context_step s final_tokens st_tail pending_txt best cand =
     (let rev_idx = fst cand;
          snap_tokens = map tok_text (tokens (snd cand));
          ctx = st_tail @ snap_tokens @ pending_txt;
          m = longest_suffix_prefix ctx final_tokens
      in if m > best_overlap_of best
         then (ctx, Some (length (awaiting_final s) - 1 - rev_idx),
               length st_tail, length snap_tokens, length pending_txt, m)
         else best)"

definition build_context_for_final ::
  "accumulator \<Rightarrow> string list \<Rightarrow> string list \<times> nat option \<times> nat \<times> nat \<times> nat" where
  "build_context_for_final s final_tokens =
     (let st_tail = py_suffix 64 (stable s);
          pending_txt = map tok_text (pending_tokens s);
          candidates = zip [0 ..< length (awaiting_final s)] (rev (awaiting_final s));
          best = foldl (context_step s final_tokens st_tail pending_txt)
                   ([], None, 0, 0, 0, 0) candidates;
          ctx_nosnap = st_tail @ pending_txt;
          m0 = longest_suffix_prefix ctx_nosnap final_tokens;
          best' = (if m0 > best_overlap_of best
                   then (ctx_nosnap, None, length st_tail, 0, length pending_txt, m0)
                   else best)
      in (fst best', fst (snd best'), fst (snd (snd best')),
          fst (snd (snd (snd best'))), fst (snd (snd (snd (snd best'))))))"

subsection \<open>Core API\<close>

definition force_segment_break :: "config \<Rightarrow> clock \<Rightarrow> int option \<Rightarrow> accumulator \<Rightarrow> accumulator" where
  "force_segment_break cfg clk now_ms s =
     (let (now, s1) = resolve_now clk now_ms s;
          s2 = snapshot_pending cfg now s1
      in s2\<lparr>pending_tokens := [],
            segment_id := segment_id s2 + 1,
            segment_started_ms := Some now,
            acc_metrics := (acc_metrics s2)\<lparr>segment_rolls := segment_rolls (acc_metrics s2) + 1\<rparr>\<rparr>)"

text \<open>
  The loop \<^verbatim>\<open>for i in range(l)\<close> of \<^verbatim>\<open>add_partial\<close> over the tokens it confirms: one
  clock read per token.
\<close>

fun confirm_tokens :: "clock \<Rightarrow> nat \<Rightarrow> token list \<Rightarrow> token list" where
  "confirm_tokens clk n [] = []"
| "confirm_tokens clk n (t # ts) =
     t\<lparr>confirmation_count := confirmation_count t + 1, last_seen_time := clk n\<rparr>
       # confirm_tokens clk (Suc n) ts"

text \<open>The loop \<^verbatim>\<open>for tok in cur_tokens[l:]\<close>: one clock read per new token.\<close>

fun fresh_tokens :: "clock \<Rightarrow> nat \<Rightarrow> string list \<Rightarrow> token list" where
  "fresh_tokens clk n [] = []"
| "fresh_tokens clk n (w # ws) =
     \<lparr>tok_text = w, confirmation_count = 1, first_seen_time = clk n, last_seen_time = clk n\<rparr>
       # fresh_tokens clk (Suc n) ws"

text \<open>
  The alignment part of \<^verbatim>\<open>add_partial\<close>: confirm the first \<open>l\<close> pending tokens
  (\<^verbatim>\<open>self.pending_tokens[i]\<close> raises when \<open>i\<close> is out of range), pop the tokens beyond
  \<open>l\<close>, append the new suffix as fresh tokens.
\<close>

definition align_pending :: "clock \<Rightarrow> string list \<Rightarrow> accumulator \<Rightarrow> py_error + accumulator" where
  "align_pending clk cur_tokens s =
     (let prev_txt = map tok_text (pending_tokens s);
          l = lcp_len prev_txt cur_tokens
      in if l \<le> length (pending_tokens s)
         then
           let confirmed = confirm_tokens clk (time_calls s) (take l (pending_tokens s))
                             @ drop l (pending_tokens s);
               kept = take l confirmed;
               new_toks = fresh_tokens clk (time_calls s + l) (drop l cur_tokens)
           in Inr (s\<lparr>pending_tokens := kept @ new_toks,
                     time_calls := time_calls s + l + length (drop l cur_tokens)\<rparr>)
         else Inl IndexError)"

definition add_partial ::
  "config \<Rightarrow> clock \<Rightarrow> string \<Rightarrow> int option \<Rightarrow> accumulator \<Rightarrow> py_error + (display_event \<times> accumulator)" where
  "add_partial cfg clk txt now_ms s =
     (let s1 = s\<lparr>acc_metrics := (acc_metrics s)\<lparr>total_partials := total_partials (acc_metrics s) + 1\<rparr>\<rparr>;
          (now, s2) = resolve_now clk now_ms s1;
          s3 = ensure_segment_started now s2;
          s4 = expire_snapshots cfg now s3;
          cur_tokens = tokenize txt;
          s5 = record_partial_history cfg cur_tokens now s4
      in case align_pending clk cur_tokens s5 of
           Inl e \<Rightarrow> Inl e
         | Inr s6 \<Rightarrow>
             let (promoted, s7) = promote_leftmost_ready cfg clk now s6;
                 s8 = (case segment_started_ms s7 of
                         None \<Rightarrow> s7
                       | Some started \<Rightarrow>
                           if now - started \<ge> max_segment_ms cfg
                           then force_segment_break cfg clk (Some now) s7
                           else s7)
             in Inr (build_display_event False s8, s8))"

text \<open>
  The orphan rescue of \<^verbatim>\<open>add_final\<close>, entered when \<^verbatim>\<open>snap_idx is not None and len_snap > 0\<close>.
  \<^verbatim>\<open>self.awaiting_final[snap_idx]\<close> and \<^verbatim>\<open>.tokens[i]\<close> are checked accesses;
  \<^verbatim>\<open>deque.remove\<close> deletes the first element equal to its argument.
\<close>

definition rescue_orphans ::
  "config \<Rightarrow> nat \<Rightarrow> nat \<Rightarrow> nat \<Rightarrow> int \<Rightarrow> accumulator \<Rightarrow> py_error + (nat \<times> accumulator)" where
  "rescue_orphans cfg snap_idx len_st_tail len_snap overlap_start s =
     (if snap_idx < length (awaiting_final s) then
        let snap_start = int len_st_tail;
            snap_end = int len_st_tail + int len_snap - 1;
            left_end = min snap_end (overlap_start - 1);
            snap = awaiting_final s ! snap_idx;
            left_count = nat (left_end - snap_start + 1)
        in if left_end \<ge> snap_start \<and> left_count > length (tokens snap) then Inl IndexError
           else
             let (rescued, s1) =
                   (if left_end \<ge> snap_start
                    then
                      let orphaned_words = map tok_text (take left_count (tokens snap));
                          (filtered_orphans, sa) = deduplicate_before_commit cfg orphaned_words s;
                          sb = sa\<lparr>stable := stable sa @ filtered_orphans\<rparr>
                      in (length filtered_orphans,
                          sb\<lparr>awaiting_final := (awaiting_final sb)
                               [snap_idx := snap\<lparr>tokens := drop left_count (tokens snap)\<rparr>]\<rparr>)
                    else (0, s));
                 s2 = (if tokens (awaiting_final s1 ! snap_idx) = []
                       then s1\<lparr>awaiting_final :=
                                 remove1 (awaiting_final s1 ! snap_idx) (awaiting_final s1)\<rparr>
                       else s1);
                 s3 = (if rescued \<noteq> 0
                       then s2\<lparr>acc_metrics := (acc_metrics s2)
                              \<lparr>orphan_rescues := orphan_rescues (acc_metrics s2) + int rescued,
                               late_final_hits := late_final_hits (acc_metrics s2) + 1,
                               tokens_committed_by_final :=
                                 tokens_committed_by_final (acc_metrics s2) + int rescued\<rparr>\<rparr>
                       else s2)
             in Inr (rescued, s3)
      else Inl IndexError)"

definition add_final ::
  "config \<Rightarrow> clock \<Rightarrow> string \<Rightarrow> int option \<Rightarrow> accumulator \<Rightarrow> py_error + (display_event \<times> accumulator)" where
  "add_final cfg clk txt now_ms s =
     (let s1 = s\<lparr>acc_metrics := (acc_metrics s)\<lparr>total_finals := total_finals (acc_metrics s) + 1\<rparr>\<rparr>;
          (now, s2) = resolve_now clk now_ms s1;
          s3 = ensure_segment_started now s2;
          s4 = expire_snapshots cfg now s3;
          final_tokens = tokenize txt
      in if final_tokens = []
         then let s5 = force_segment_break cfg clk (Some now) s4
              in Inr (build_display_event True s5, s5)
         else
           let (context, snap_idx, len_st_tail, len_snap, len_pend) =
                 build_context_for_final s4 final_tokens;
               m = longest_suffix_prefix context final_tokens;
               overlap_start = int (length context) - int m
           in case (case snap_idx of
                      None \<Rightarrow> Inr (0, s4)
                    | Some idx \<Rightarrow>
                        if len_snap > 0
                        then rescue_orphans cfg idx len_st_tail len_snap overlap_start s4
                        else Inr (0, s4)) of
                Inl e \<Rightarrow> Inl e
              | Inr (rescued, s5) \<Rightarrow>
                  let to_append = drop m final_tokens;
                      s6 = (if to_append \<noteq> []
                            then let (filtered_append, sa) =
                                       deduplicate_before_commit cfg to_append s5
                                 in sa\<lparr>stable := stable sa @ filtered_append,
                                       acc_metrics := (acc_metrics sa)
                                         \<lparr>tokens_committed_by_final :=
                                            tokens_committed_by_final (acc_metrics sa)
                                              + int (length filtered_append)\<rparr>\<rparr>
                            else s5);
                      s7 = s6\<lparr>pending_tokens := [],
                              segment_id := segment_id s6 + 1,
                              segment_started_ms := Some now\<rparr>
                  in Inr (build_display_event True s7, s7))"

definition reset :: "accumulator \<Rightarrow> accumulator" where
  "reset s = s\<lparr>stable := [], pending_tokens := [], awaiting_final := [],
               partial_history := [], segment_id := 0, segment_started_ms := None\<rparr>"

subsection \<open>Calls and runs\<close>

datatype call =
    AddPartial string "int option"
  | AddFinal string "int option"
  | ForceSegmentBreak "int option"

fun apply_call :: "config \<Rightarrow> clock \<Rightarrow> call \<Rightarrow> accumulator \<Rightarrow> py_error + accumulator" where
  "apply_call cfg clk (AddPartial txt now_ms) s = map_sum id snd (add_partial cfg clk txt now_ms s)"
| "apply_call cfg clk (AddFinal txt now_ms) s = map_sum id snd (add_final cfg clk txt now_ms s)"
| "apply_call cfg clk (ForceSegmentBreak now_ms) s = Inr (force_segment_break cfg clk now_ms s)"

fun run_calls :: "config \<Rightarrow> clock \<Rightarrow> call list \<Rightarrow> accumulator \<Rightarrow> py_error + accumulator" where
  "run_calls cfg clk [] s = Inr s"
| "run_calls cfg clk (c # cs) s =
     (case apply_call cfg clk c s of Inl e \<Rightarrow> Inl e | Inr s' \<Rightarrow> run_calls cfg clk cs s')"

subsection \<open>Example states\<close>

definition dedup_example :: accumulator where
  "dedup_example = init_accumulator\<lparr>stable := [''foo'', ''Bar'', ''baz'']\<rparr>"

text \<open>
  One snapshot holding the token \<open>a\<close>, nothing stable and nothing pending: the state
  after \<^verbatim>\<open>add_partial("a", 0)\<close> and \<^verbatim>\<open>force_segment_break(0)\<close> on a fresh accumulator,
  up to the counters and the partial history.
\<close>

definition tie_example :: accumulator where
  "tie_example = init_accumulator
     \<lparr>awaiting_final :=
        [\<lparr>tokens = [\<lparr>tok_text = ''a'', confirmation_count = 1,
                       first_seen_time = 0, last_seen_time = 0\<rparr>],
          started_ms = 0, expiry_ms = 5000, snap_segment_id = 0\<rparr>],
      segment_id := 1, segment_started_ms := Some 0\<rparr>"

text \<open>
  One snapshot \<open>a b\<close> and the pending token \<open>b\<close>: for the final \<open>b c\<close> the context
  with the snapshot and the context without it both overlap the final in one token.
\<close>

definition rescue_example :: accumulator where
  "rescue_example = init_accumulator
     \<lparr>pending_tokens :=
        [\<lparr>tok_text = ''b'', confirmation_count = 1, first_seen_time = 1, last_seen_time = 1\<rparr>],
      awaiting_final :=
        [\<lparr>tokens = [\<lparr>tok_text = ''a'', confirmation_count = 1,
                       first_seen_time = 0, last_seen_time = 0\<rparr>,
                     \<lparr>tok_text = ''b'', confirmation_count = 1,
                       first_seen_time = 0, last_seen_time = 0\<rparr>],
          started_ms = 0, expiry_ms = 5000, snap_segment_id = 0\<rparr>],
      segment_id := 1, segment_started_ms := Some 0\<rparr>"

text \<open>
  The clock of scenario 3: the first \<open>add_partial("alpha beta")\<close> reads the clock four
  times (once for \<^verbatim>\<open>now\<close>, once per new token, once in the promotion loop) at
  \<open>t = 0\<close>; every later read is at \<open>t = 1.6\<close>.
\<close>

definition fake_clock_0_then_1600ms :: clock where
  "fake_clock_0_then_1600ms = (\<lambda>k. if k < 4 then 0 else 8 / 5)"


text \<open>
  The state after \<^verbatim>\<open>add_partial("a")\<close> on a fresh accumulator whose clock reads \<open>0\<close>:
  one pending token first seen at \<open>t = 0\<close>, three clock values read.
\<close>

definition aged_example :: accumulator where
  "aged_example =
     \<lparr>stable = [],
      pending_tokens =
        [\<lparr>tok_text = ''a'', confirmation_count = 1, first_seen_time = 0, last_seen_time = 0\<rparr>],
      awaiting_final = [],
      partial_history = [\<lparr>ts_ms = 0, tt_tokens = [''a'']\<rparr>],
      segment_id = 0, segment_started_ms = Some 0,
      acc_metrics = zero_metrics\<lparr>total_partials := 1\<rparr>,
      time_calls = 3\<rparr>"

text \<open>A clock that advances by a tenth of a second at every read.\<close>

definition tenth_clock :: clock where
  "tenth_clock k = of_nat k / 10"

text \<open>
  The state after \<^verbatim>\<open>add_partial("a b")\<close> on a fresh accumulator over \<open>tenth_clock\<close>:
  \<open>now\<close> is read at \<open>0\<close>, the tokens are first seen at \<open>0.1\<close> and \<open>0.2\<close>, and the
  promotion loop reads \<open>0.3\<close>.
\<close>

definition two_pending_example :: accumulator where
  "two_pending_example =
     \<lparr>stable = [],
      pending_tokens =
        [\<lparr>tok_text = ''a'', confirmation_count = 1,
           first_seen_time = 1 / 10, last_seen_time = 1 / 10\<rparr>,
         \<lparr>tok_text = ''b'', confirmation_count = 1,
           first_seen_time = 2 / 10, last_seen_time = 2 / 10\<rparr>],
      awaiting_final = [],
      partial_history = [\<lparr>ts_ms = 0, tt_tokens = [''a'', ''b'']\<rparr>],
      segment_id = 0, segment_started_ms = Some 0,
      acc_metrics = zero_metrics\<lparr>total_partials := 1\<rparr>,
      time_calls = 4\<rparr>"


text \<open>
  Two snapshots in order: the state after \<^verbatim>\<open>add_partial("a b", 0)\<close>,
  \<^verbatim>\<open>force_segment_break(0)\<close>, \<^verbatim>\<open>add_partial("c d", 3000)\<close> and
  \<^verbatim>\<open>force_segment_break(3000)\<close> on a fresh accumulator whose clock reads \<open>0\<close>.
\<close>

definition two_snapshots_example :: accumulator where
  "two_snapshots_example =
     \<lparr>stable = [], pending_tokens = [],
      awaiting_final =
        [\<lparr>tokens = [\<lparr>tok_text = ''a'', confirmation_count = 1,
                       first_seen_time = 0, last_seen_time = 0\<rparr>,
                     \<lparr>tok_text = ''b'', confirmation_count = 1,
                       first_seen_time = 0, last_seen_time = 0\<rparr>],
          started_ms = 0, expiry_ms = 5000, snap_segment_id = 0\<rparr>,
         \<lparr>tokens = [\<lparr>tok_text = ''c'', confirmation_count = 1,
                       first_seen_time = 0, last_seen_time = 0\<rparr>,
                     \<lparr>tok_text = ''d'', confirmation_count = 1,
                       first_seen_time = 0, last_seen_time = 0\<rparr>],
          started_ms = 3000, expiry_ms = 8000, snap_segment_id = 1\<rparr>],
      partial_history = [\<lparr>ts_ms = 0, tt_tokens = [''a'', ''b'']\<rparr>,
                         \<lparr>ts_ms = 3000, tt_tokens = [''c'', ''d'']\<rparr>],
      segment_id = 2, segment_started_ms = Some 3000,
      acc_metrics = zero_metrics\<lparr>segment_rolls := 2, total_partials := 2\<rparr>,
      time_calls = 6\<rparr>"

definition two_snapshots_calls :: "call list" where
  "two_snapshots_calls =
     [AddPartial ''a b'' (Some 0), ForceSegmentBreak (Some 0),
      AddPartial ''c d'' (Some 3000), ForceSegmentBreak (Some 3000)]"

text \<open>
  Two snapshots out of order, after call times that went backwards: the state after
  \<^verbatim>\<open>add_partial("a", 1000)\<close>, \<^verbatim>\<open>force_segment_break(1000)\<close>, \<^verbatim>\<open>add_partial("b", 0)\<close>
  and \<^verbatim>\<open>force_segment_break(0)\<close>.
\<close>

definition regressed_example :: accumulator where
  "regressed_example =
     \<lparr>stable = [], pending_tokens = [],
      awaiting_final =
        [\<lparr>tokens = [\<lparr>tok_text = ''a'', confirmation_count = 1,
                       first_seen_time = 0, last_seen_time = 0\<rparr>],
          started_ms = 1000, expiry_ms = 6000, snap_segment_id = 0\<rparr>,
         \<lparr>tokens = [\<lparr>tok_text = ''b'', confirmation_count = 1,
                       first_seen_time = 0, last_seen_time = 0\<rparr>],
          started_ms = 0, expiry_ms = 5000, snap_segment_id = 1\<rparr>],
      partial_history = [\<lparr>ts_ms = 1000, tt_tokens = [''a'']\<rparr>,
                         \<lparr>ts_ms = 0, tt_tokens = [''b'']\<rparr>],
      segment_id = 2, segment_started_ms = Some 0,
      acc_metrics = zero_metrics\<lparr>segment_rolls := 2, total_partials := 2\<rparr>,
      time_calls = 4\<rparr>"

definition regressed_calls :: "call list" where
  "regressed_calls =
     [AddPartial ''a'' (Some 1000), ForceSegmentBreak (Some 1000),
      AddPartial ''b'' (Some 0), ForceSegmentBreak (Some 0)]"

text \<open>The default configuration with a snapshot TTL of zero.\<close>

definition zero_ttl_config :: config where
  "zero_ttl_config = default_config\<lparr>awaiting_final_ttl_ms := 0\<rparr>"

subsection \<open>Phases of a call\<close>

text \<open>
  Names for the intermediate states of \<open>add_partial\<close> and \<open>add_final\<close>, used to state
  and prove properties: the resolved \<^verbatim>\<open>now\<close> of a call, the state after the call has been
  counted, and the state after \<^verbatim>\<open>_ensure_segment_started\<close> and \<^verbatim>\<open>_expire_snapshots\<close>.
\<close>

definition call_now :: "clock \<Rightarrow> int option \<Rightarrow> accumulator \<Rightarrow> int" where
  "call_now clk now_ms s = fst (resolve_now clk now_ms s)"

definition count_partial :: "accumulator \<Rightarrow> accumulator" where
  "count_partial s =
     s\<lparr>acc_metrics := (acc_metrics s)\<lparr>total_partials := total_partials (acc_metrics s) + 1\<rparr>\<rparr>"

definition count_final :: "accumulator \<Rightarrow> accumulator" where
  "count_final s =
     s\<lparr>acc_metrics := (acc_metrics s)\<lparr>total_finals := total_finals (acc_metrics s) + 1\<rparr>\<rparr>"

definition entry_state :: "config \<Rightarrow> clock \<Rightarrow> int option \<Rightarrow> accumulator \<Rightarrow> accumulator" where
  "entry_state cfg clk now_ms s1 =
     expire_snapshots cfg (call_now clk now_ms s1)
       (ensure_segment_started (call_now clk now_ms s1) (snd (resolve_now clk now_ms s1)))"

text \<open>The tail of \<open>add_partial\<close> after the alignment: promotion, then the segment timeout.\<close>

definition exit_partial :: "config \<Rightarrow> clock \<Rightarrow> int \<Rightarrow> accumulator \<Rightarrow> accumulator" where
  "exit_partial cfg clk now s6 =
     (case segment_started_ms (snd (promote_leftmost_ready cfg clk now s6)) of
        None \<Rightarrow> snd (promote_leftmost_ready cfg clk now s6)
      | Some started \<Rightarrow>
          if now - started \<ge> max_segment_ms cfg
          then force_segment_break cfg clk (Some now) (snd (promote_leftmost_ready cfg clk now s6))
          else snd (promote_leftmost_ready cfg clk now s6))"

subsection \<open>Candidate contexts of the reconciler\<close>

text \<open>
  The candidates of \<^verbatim>\<open>_build_context_for_final\<close>, by snapshot index: the context built
  from snapshot \<open>i\<close> of \<open>awaiting_final\<close>, the context without a snapshot, and their
  overlaps with the final.
\<close>

definition snap_context :: "accumulator \<Rightarrow> nat \<Rightarrow> string list" where
  "snap_context s i =
     py_suffix 64 (stable s) @ map tok_text (tokens (awaiting_final s ! i))
       @ map tok_text (pending_tokens s)"

definition nosnap_context :: "accumulator \<Rightarrow> string list" where
  "nosnap_context s = py_suffix 64 (stable s) @ map tok_text (pending_tokens s)"

definition snap_overlap :: "accumulator \<Rightarrow> string list \<Rightarrow> nat \<Rightarrow> nat" where
  "snap_overlap s final_tokens i = longest_suffix_prefix (snap_context s i) final_tokens"

definition nosnap_overlap :: "accumulator \<Rightarrow> string list \<Rightarrow> nat" where
  "nosnap_overlap s final_tokens = longest_suffix_prefix (nosnap_context s) final_tokens"

definition max_overlap :: "accumulator \<Rightarrow> string list \<Rightarrow> nat" where
  "max_overlap s final_tokens =
     fold max (map (snap_overlap s final_tokens) [0 ..< length (awaiting_final s)])
       (nosnap_overlap s final_tokens)"

definition chosen_context :: "accumulator \<Rightarrow> string list \<Rightarrow> string list" where
  "chosen_context s final_tokens = fst (build_context_for_final s final_tokens)"

definition chosen_snapshot :: "accumulator \<Rightarrow> string list \<Rightarrow> nat option" where
  "chosen_snapshot s final_tokens = fst (snd (build_context_for_final s final_tokens))"

subsection \<open>Phases of \<open>add_final\<close>\<close>

text \<open>
  The two parts of \<open>add_final\<close> after the context has been chosen: the orphan rescue on
  the chosen snapshot, and the tail that appends the unmatched suffix of the final with
  overlap \<open>m\<close>, clears \<open>pending_tokens\<close> and rolls the segment.
\<close>

definition rescue_step ::
  "config \<Rightarrow> string list \<Rightarrow> accumulator \<Rightarrow> py_error + (nat \<times> accumulator)" where
  "rescue_step cfg final_tokens s4 =
     (case fst (snd (build_context_for_final s4 final_tokens)) of
        None \<Rightarrow> Inr (0, s4)
      | Some idx \<Rightarrow>
          if fst (snd (snd (snd (build_context_for_final s4 final_tokens)))) > 0
          then rescue_orphans cfg idx
                 (fst (snd (snd (build_context_for_final s4 final_tokens))))
                 (fst (snd (snd (snd (build_context_for_final s4 final_tokens)))))
                 (int (length (fst (build_context_for_final s4 final_tokens)))
                    - int (longest_suffix_prefix (fst (build_context_for_final s4 final_tokens))
                             final_tokens))
                 s4
          else Inr (0, s4))"

definition exit_final :: "config \<Rightarrow> int \<Rightarrow> string list \<Rightarrow> nat \<Rightarrow> accumulator \<Rightarrow> accumulator" where
  "exit_final cfg now final_tokens m s5 =
     (let s6 = (if drop m final_tokens \<noteq> []
                then (snd (deduplicate_before_commit cfg (drop m final_tokens) s5))
                       \<lparr>stable := stable (snd (deduplicate_before_commit cfg (drop m final_tokens) s5))
                                    @ fst (deduplicate_before_commit cfg (drop m final_tokens) s5),
                        acc_metrics :=
                          (acc_metrics (snd (deduplicate_before_commit cfg (drop m final_tokens) s5)))
                            \<lparr>tokens_committed_by_final :=
                               tokens_committed_by_final
                                 (acc_metrics (snd (deduplicate_before_commit cfg (drop m final_tokens) s5)))
                               + int (length (fst (deduplicate_before_commit cfg (drop m final_tokens) s5)))\<rparr>\<rparr>
                else s5)
      in s6\<lparr>pending_tokens := [], segment_id := segment_id s6 + 1,
             segment_started_ms := Some now\<rparr>)"

subsection \<open>Invariants as predicates\<close>

text \<open>I4: every snapshot in \<open>awaiting_final\<close> expires strictly after \<open>now\<close>.\<close>

definition snapshots_live :: "int \<Rightarrow> accumulator \<Rightarrow> bool" where
  "snapshots_live now s = list_all (\<lambda>snap. now < expiry_ms snap) (awaiting_final s)"

text \<open>
  I5 at the clock value \<open>now\<close> (seconds): every pending token is below the K threshold
  and its age, computed as \<^verbatim>\<open>_promote_leftmost_ready\<close> computes it, is below the T
  threshold.
\<close>

definition pending_fresh :: "config \<Rightarrow> rat \<Rightarrow> accumulator \<Rightarrow> bool" where
  "pending_fresh cfg now s =
     list_all (\<lambda>t. confirmation_count t < K cfg
                  \<and> py_int ((now - first_seen_time t) * 1000) < T_ms cfg)
       (pending_tokens s)"

text \<open>
  The order of \<open>pending_tokens\<close> from front to back: \<open>confirmation_count\<close> does not
  increase and \<open>first_seen_time\<close> does not decrease.
\<close>

definition pending_ordered :: "token list \<Rightarrow> bool" where
  "pending_ordered ts =
     sorted_wrt (\<lambda>a b. confirmation_count b \<le> confirmation_count a
                      \<and> first_seen_time a \<le> first_seen_time b) ts"

text \<open>
  The invariant behind the order: moreover every pending token has been seen at least
  once, and no later than the next value \<open>clk n\<close> of the clock.
\<close>

definition pending_inv :: "clock \<Rightarrow> nat \<Rightarrow> token list \<Rightarrow> bool" where
  "pending_inv clk n ts =
     (pending_ordered ts
      \<and> list_all (\<lambda>t. 1 \<le> confirmation_count t \<and> first_seen_time t \<le> clk n) ts)"

text \<open>What the collecting loop leaves: a suffix of the pending tokens whose first token,
  if any, has just been tested and is below both thresholds.\<close>

definition front_fresh :: "config \<Rightarrow> clock \<Rightarrow> accumulator \<Rightarrow> bool" where
  "front_fresh cfg clk s =
     (case pending_tokens s of
        [] \<Rightarrow> True
      | tok # rest \<Rightarrow>
          0 < time_calls s \<and> confirmation_count tok < K cfg
          \<and> py_int ((clk (time_calls s - 1) - first_seen_time tok) * 1000) < T_ms cfg)"


subsection \<open>Reachable states\<close>

text \<open>
  The states of a session over the clock \<open>clk\<close>: the fresh accumulator, and what the
  state-changing public operations make of a reachable state. \<open>build_display_event\<close> and
  \<open>get_metrics\<close> leave the state as it is.
\<close>

inductive reachable :: "config \<Rightarrow> clock \<Rightarrow> accumulator \<Rightarrow> bool" for cfg :: config and clk :: clock where
  reachable_init: "reachable cfg clk init_accumulator"
| reachable_call: "reachable cfg clk s \<Longrightarrow> apply_call cfg clk c s = Inr s' \<Longrightarrow> reachable cfg clk s'"
| reachable_reset: "reachable cfg clk s \<Longrightarrow> reachable cfg clk (reset s)"

text \<open>The clock of the tests: constant while a call runs.\<close>

definition fake_clock :: "rat \<Rightarrow> clock" where
  "fake_clock t = (\<lambda>k. t)"

text \<open>What a run is observed by: the stable tokens and the texts of the pending tokens.\<close>

definition stable_and_pending :: "py_error + accumulator \<Rightarrow> py_error + (string list \<times> string list)" where
  "stable_and_pending r = map_sum id (\<lambda>s. (stable s, map tok_text (pending_tokens s))) r"

definition clock_reads :: "py_error + accumulator \<Rightarrow> py_error + nat" where
  "clock_reads r = map_sum id time_calls r"

subsection \<open>Runs with their display events\<close>



text \<open>Two clocks return the same values at the reads number \<open>a\<close> up to \<open>b - 1\<close>.\<close>

definition clocks_agree :: "clock \<Rightarrow> clock \<Rightarrow> nat \<Rightarrow> nat \<Rightarrow> bool" where
  "clocks_agree clk clk' a b = (\<forall>k. a \<le> k \<and> k < b \<longrightarrow> clk k = clk' k)"

subsection \<open>Sessions with non-decreasing call times\<close>

text \<open>The resolved \<^verbatim>\<open>now\<close> of a call made in state \<open>s\<close>.\<close>

definition call_time :: "clock \<Rightarrow> call \<Rightarrow> accumulator \<Rightarrow> int" where
  "call_time clk c s =
     (case c of
        AddPartial txt now_ms \<Rightarrow> call_now clk now_ms s
      | AddFinal txt now_ms \<Rightarrow> call_now clk now_ms s
      | ForceSegmentBreak now_ms \<Rightarrow> call_now clk now_ms s)"

text \<open>
  \<open>timed_reachable cfg clk t s\<close>: the state \<open>s\<close> is reached from the fresh accumulator by
  calls whose resolved times never decrease, the last of them made at \<open>t\<close> (before the
  first call \<open>t\<close> is arbitrary). This is a session over a monotonic clock, or one with
  explicit \<^verbatim>\<open>now_ms\<close> values in order.
\<close>

inductive timed_reachable :: "config \<Rightarrow> clock \<Rightarrow> int \<Rightarrow> accumulator \<Rightarrow> bool"
  for cfg :: config and clk :: clock where
  timed_init: "timed_reachable cfg clk t init_accumulator"
| timed_call: "timed_reachable cfg clk t s \<Longrightarrow> t \<le> call_time clk c s
                 \<Longrightarrow> apply_call cfg clk c s = Inr s'
                 \<Longrightarrow> timed_reachable cfg clk (call_time clk c s) s'"
| timed_reset: "timed_reachable cfg clk t s \<Longrightarrow> timed_reachable cfg clk t (reset s)"

text \<open>The same as a function on a list of calls: the last call time and the state, if the
  times never decrease and no call raises.\<close>

fun timed_run :: "config \<Rightarrow> clock \<Rightarrow> int \<Rightarrow> call list \<Rightarrow> accumulator \<Rightarrow> (int \<times> accumulator) option" where
  "timed_run cfg clk t [] s = Some (t, s)"
| "timed_run cfg clk t (c # cs) s =
     (if t \<le> call_time clk c s
      then (case apply_call cfg clk c s of
              Inl e \<Rightarrow> None
            | Inr s' \<Rightarrow> timed_run cfg clk (call_time clk c s) cs s')
      else None)"

text \<open>
  The order of \<open>awaiting_final\<close> in such a session: expiry times do not decrease along the
  queue, and none is later than the last call time plus the TTL.
\<close>

definition expiry_inv :: "config \<Rightarrow> int \<Rightarrow> accumulator \<Rightarrow> bool" where
  "expiry_inv cfg t s =
     (sorted (map expiry_ms (awaiting_final s))
      \<and> list_all (\<lambda>snap. expiry_ms snap \<le> t + awaiting_final_ttl_ms cfg) (awaiting_final s))"

subsection \<open>What the expiry of snapshots commits\<close>

text \<open>
  The deduplicator as a function of the configuration, the stable tokens and the
  candidate list: the list it returns.
\<close>

definition dedup_filter :: "config \<Rightarrow> string list \<Rightarrow> string list \<Rightarrow> string list" where
  "dedup_filter cfg st new_tokens =
     fst (deduplicate_before_commit cfg new_tokens (init_accumulator\<lparr>stable := st\<rparr>))"

text \<open>
  Auto-commit of a list of snapshots, oldest first, in the words of the specification:
  the token texts of each snapshot are passed through the deduplicator and the survivors
  are appended to \<open>stable\<close>.
\<close>

fun expired_commit :: "config \<Rightarrow> string list \<Rightarrow> snapshot list \<Rightarrow> string list" where
  "expired_commit cfg st [] = st"
| "expired_commit cfg st (snap # snaps) =
     expired_commit cfg (st @ dedup_filter cfg st (map tok_text (tokens snap))) snaps"

text \<open>Whether I4 holds at \<open>now\<close> in the state a call returns.\<close>

definition live_after :: "int \<Rightarrow> py_error + (display_event \<times> accumulator) \<Rightarrow> py_error + bool" where
  "live_after now r = map_sum id (\<lambda>p. snapshots_live now (snd p)) r"

section \<open>Properties\<close>

subsection \<open>Tokenizer and detokenizer\<close>

declare tokenize_with.simps(2) [simp del]

lemma filter_split_alnum:
  assumes "\<And>c. alnum c \<Longrightarrow> \<not> space c"
  shows "filter (\<lambda>c. \<not> space c) cs =
     takeWhile alnum cs @ filter (\<lambda>c. \<not> space c) (dropWhile alnum cs)"
proof -
  have keep: "filter (\<lambda>c. \<not> space c) (takeWhile alnum cs) = takeWhile alnum cs"
    by (rule filter_True) (auto dest: set_takeWhileD assms)
  have "filter (\<lambda>c. \<not> space c) cs =
          filter (\<lambda>c. \<not> space c) (takeWhile alnum cs @ dropWhile alnum cs)"
    by simp
  also have "\<dots> = takeWhile alnum cs @ filter (\<lambda>c. \<not> space c) (dropWhile alnum cs)"
    unfolding filter_append keep ..
  finally show ?thesis .
qed

lemma concat_tokenize_with:
  assumes ns: "\<And>c. alnum c \<Longrightarrow> \<not> space c" and apo: "\<not> space apostrophe"
  shows "concat (tokenize_with alnum space apostrophe inp) = filter (\<lambda>c. \<not> space c) inp"
  using assms
proof (induction alnum space apostrophe inp rule: tokenize_with.induct)
  case (1 alnum space apostrophe)
  show ?case by simp
next
  case (2 alnum space apostrophe c cs)
  note ns = "2.prems"(1) and apo = "2.prems"(2)
  let ?ns = "\<lambda>c. \<not> space c"
  let ?tok = "tokenize_with alnum space apostrophe"
  note unfold = tokenize_with.simps(2) [of alnum space apostrophe c cs]
  show ?case
  proof (cases "alnum c")
    case alnum: True
    then have c: "\<not> space c" by (rule ns)
    have split: "filter ?ns (c # cs) = c # takeWhile alnum cs @ filter ?ns (dropWhile alnum cs)"
      using c filter_split_alnum [of alnum space cs, OF ns] by simp
    show ?thesis
    proof (cases "dropWhile alnum cs")
      case Nil
      have "?tok (c # cs) = (c # takeWhile alnum cs) # ?tok []"
        by (simp only: unfold alnum Nil if_True list.case)
      then show ?thesis unfolding split Nil by simp
    next
      case (Cons q r)
      note qr = this
      show ?thesis
      proof (cases r)
        case Nil
        have "?tok (c # cs) = (c # takeWhile alnum cs) # ?tok [q]"
          by (simp only: unfold alnum qr Nil if_True list.case)
        moreover have "concat (?tok [q]) = filter ?ns [q]"
          using "2.IH"(2) [OF alnum qr Nil ns apo] .
        ultimately show ?thesis unfolding split qr Nil by simp
      next
        case (Cons d rest)
        show ?thesis
        proof (cases "q = apostrophe \<and> alnum d")
          case True
          have "?tok (c # cs) =
                  (c # takeWhile alnum cs @ q # d # takeWhile alnum rest)
                    # ?tok (dropWhile alnum rest)"
            using True by (simp add: unfold alnum qr Cons)
          moreover have "concat (?tok (dropWhile alnum rest)) = filter ?ns (dropWhile alnum rest)"
            using "2.IH"(3) [OF alnum qr Cons True ns apo] .
          moreover have "filter ?ns (q # d # rest) =
                           q # d # takeWhile alnum rest @ filter ?ns (dropWhile alnum rest)"
            using True filter_split_alnum [of alnum space rest, OF ns] ns [of d] apo
            by simp
          ultimately show ?thesis unfolding split qr Cons by simp
        next
          case False
          have "?tok (c # cs) = (c # takeWhile alnum cs) # ?tok (q # d # rest)"
            using False by (simp add: unfold alnum qr Cons)
          moreover have "concat (?tok (q # d # rest)) = filter ?ns (q # d # rest)"
            using "2.IH"(4) [OF alnum qr Cons False ns apo] .
          ultimately show ?thesis unfolding split qr Cons by simp
        qed
      qed
    qed
  next
    case False
    with "2.IH"(5,6) [OF _ _ ns apo] show ?thesis by (simp add: unfold)
  qed
qed

lemma concat_detok_step:
  "concat (detok_step punct blank out tok) =
     (if out = [] \<or> punct tok then concat out @ tok else concat out @ blank # tok)"
proof (cases "out = []")
  case True
  then show ?thesis by (simp add: detok_step_def)
next
  case False
  then have "concat out = concat (butlast out) @ last out"
    by (metis append_butlast_last_id concat.simps(1,2) concat_append append_Nil2)
  with False show ?thesis by (simp add: detok_step_def)
qed

lemma filter_concat_foldl_detok:
  assumes "space blank"
  shows "filter (\<lambda>c. \<not> space c) (concat (foldl (detok_step punct blank) out toks)) =
     filter (\<lambda>c. \<not> space c) (concat out) @ filter (\<lambda>c. \<not> space c) (concat toks)"
proof (induction toks arbitrary: out)
  case Nil
  show ?case by simp
next
  case (Cons tok toks)
  show ?case using assms by (simp add: Cons.IH concat_detok_step)
qed

text \<open>
  Claim C7. For every input string, the non-whitespace characters of
  \<open>detokenize (tokenize inp)\<close> are, in order, the non-whitespace characters of \<open>inp\<close>.
  It holds over every type of characters and for all character classes of which three
  facts hold: no character of \<^verbatim>\<open>[A-Za-z0-9]\<close> is whitespace, the apostrophe is not
  whitespace, and the character that \<^verbatim>\<open>detokenize\<close> inserts is whitespace. They hold of
  Python's classes on all of Unicode; which tokens count as punctuation does not matter.
\<close>

theorem detokenize_tokenize_chars:
  assumes "\<And>c. alnum c \<Longrightarrow> \<not> space c" and "\<not> space apostrophe" and "space blank"
  shows "filter (\<lambda>c. \<not> space c)
           (detokenize_with punct blank (tokenize_with alnum space apostrophe inp))
         = filter (\<lambda>c. \<not> space c) inp"
  using assms by (simp add: detokenize_with_def filter_concat_foldl_detok concat_tokenize_with)

lemma alnum_not_space: "is_alnum c \<Longrightarrow> \<not> is_space c"
  by (auto simp: is_alnum_def is_space_def Let_def)

lemma unicode_alnum_not_space: "unicode_alnum n \<Longrightarrow> \<not> unicode_space n"
  by (auto simp: unicode_alnum_def unicode_space_def)

theorem detokenize_tokenize_chars_witness:
  "\<not> is_space (CHR 0x27) \<and> is_space (CHR '' '')
   \<and> tokenize [CHR ''a'', CHR 0xA0, CHR ''b'', CHR '','', CHR 0x85, CHR 0xE9] = [''a'', ''b'', '','', [CHR 0xE9]]
   \<and> detokenize [''a'', ''b'', '','', [CHR 0xE9]] = [CHR ''a'', CHR '' '', CHR ''b'', CHR '','', CHR '' '', CHR 0xE9]
   \<and> filter (\<lambda>c. \<not> is_space c)
         (detokenize (tokenize [CHR ''a'', CHR 0xA0, CHR ''b'', CHR '','', CHR 0x85, CHR 0xE9]))
       = filter (\<lambda>c. \<not> is_space c) [CHR ''a'', CHR 0xA0, CHR ''b'', CHR '','', CHR 0x85, CHR 0xE9]
   \<and> \<not> unicode_space 39 \<and> unicode_space 32
   \<and> filter (\<lambda>n. \<not> unicode_space n)
         (detokenize_with (is_punct_token_with unicode_alnum unicode_space 10) 32
            (tokenize_with unicode_alnum unicode_space 39 [20013, 12288, 97, 39, 98, 8232, 33]))
       = [20013, 97, 39, 98, 33]"
proof -
  have f1: "\<not> is_space (CHR 0x27)" and f2: "is_space (CHR '' '')"
    by (simp_all add: is_space_def)
  have g1: "\<not> unicode_space 39" and g2: "unicode_space 32"
    by (simp_all add: unicode_space_def)
  have t: "tokenize [CHR ''a'', CHR 0xA0, CHR ''b'', CHR '','', CHR 0x85, CHR 0xE9]
             = [''a'', ''b'', '','', [CHR 0xE9]]"
    by code_simp
  have d: "detokenize [''a'', ''b'', '','', [CHR 0xE9]]
             = [CHR ''a'', CHR '' '', CHR ''b'', CHR '','', CHR '' '', CHR 0xE9]"
    by code_simp
  have u: "filter (\<lambda>n. \<not> unicode_space n) [20013, 12288, 97, 39, 98, 8232, 33]
             = [20013, 97, 39, 98, 33]"
    by (simp add: unicode_space_def)
  from detokenize_tokenize_chars [of is_alnum is_space "CHR 0x27" "CHR '' ''" is_punct_token
         "[CHR ''a'', CHR 0xA0, CHR ''b'', CHR '','', CHR 0x85, CHR 0xE9]", OF alnum_not_space f1 f2]
    detokenize_tokenize_chars [of unicode_alnum unicode_space 39 32
         "is_punct_token_with unicode_alnum unicode_space 10"
         "[20013, 12288, 97, 39, 98, 8232, 33]", OF unicode_alnum_not_space g1 g2]
  show ?thesis
    using f1 f2 g1 g2 t d u
    by (simp add: tokenize_def [symmetric] detokenize_def [symmetric])
qed

subsection \<open>Frame lemmas\<close>

declare promote_collect.simps [simp del] expire_snapshots.simps [simp del]

lemma dedup_frame:
  "snd (deduplicate_before_commit cfg new s)
     = s\<lparr>acc_metrics := acc_metrics (snd (deduplicate_before_commit cfg new s))\<rparr>"
  by (simp add: deduplicate_before_commit_def Let_def)

lemma dedup_fields [simp]:
  "stable (snd (deduplicate_before_commit cfg new s)) = stable s"
  "pending_tokens (snd (deduplicate_before_commit cfg new s)) = pending_tokens s"
  "awaiting_final (snd (deduplicate_before_commit cfg new s)) = awaiting_final s"
  "partial_history (snd (deduplicate_before_commit cfg new s)) = partial_history s"
  "segment_id (snd (deduplicate_before_commit cfg new s)) = segment_id s"
  "segment_started_ms (snd (deduplicate_before_commit cfg new s)) = segment_started_ms s"
  "time_calls (snd (deduplicate_before_commit cfg new s)) = time_calls s"
  by (simp_all add: deduplicate_before_commit_def Let_def)

lemma resolve_now_fields [simp]:
  "stable (snd (resolve_now clk now_ms s)) = stable s"
  "pending_tokens (snd (resolve_now clk now_ms s)) = pending_tokens s"
  "awaiting_final (snd (resolve_now clk now_ms s)) = awaiting_final s"
  "partial_history (snd (resolve_now clk now_ms s)) = partial_history s"
  "segment_id (snd (resolve_now clk now_ms s)) = segment_id s"
  "segment_started_ms (snd (resolve_now clk now_ms s)) = segment_started_ms s"
  "acc_metrics (snd (resolve_now clk now_ms s)) = acc_metrics s"
  by (simp_all add: resolve_now_def now_ms_of_def time_fn_def split: option.splits)

lemma resolve_now_Some [simp]: "resolve_now clk (Some n) s = (n, s)"
  by (simp add: resolve_now_def)

lemma ensure_segment_started_fields [simp]:
  "stable (ensure_segment_started now s) = stable s"
  "pending_tokens (ensure_segment_started now s) = pending_tokens s"
  "awaiting_final (ensure_segment_started now s) = awaiting_final s"
  "partial_history (ensure_segment_started now s) = partial_history s"
  "segment_id (ensure_segment_started now s) = segment_id s"
  "acc_metrics (ensure_segment_started now s) = acc_metrics s"
  "time_calls (ensure_segment_started now s) = time_calls s"
  by (simp_all add: ensure_segment_started_def)

lemma record_partial_history_fields [simp]:
  "stable (record_partial_history cfg toks now s) = stable s"
  "pending_tokens (record_partial_history cfg toks now s) = pending_tokens s"
  "awaiting_final (record_partial_history cfg toks now s) = awaiting_final s"
  "segment_id (record_partial_history cfg toks now s) = segment_id s"
  "segment_started_ms (record_partial_history cfg toks now s) = segment_started_ms s"
  "acc_metrics (record_partial_history cfg toks now s) = acc_metrics s"
  "time_calls (record_partial_history cfg toks now s) = time_calls s"
  by (simp_all add: record_partial_history_def Let_def)

lemma expire_snapshots_fields [simp]:
  "pending_tokens (expire_snapshots cfg now s) = pending_tokens s"
  "partial_history (expire_snapshots cfg now s) = partial_history s"
  "segment_id (expire_snapshots cfg now s) = segment_id s"
  "segment_started_ms (expire_snapshots cfg now s) = segment_started_ms s"
  "time_calls (expire_snapshots cfg now s) = time_calls s"
  by (induction cfg now s rule: expire_snapshots.induct;
      subst expire_snapshots.simps; simp add: Let_def split: list.splits)+

lemma expire_snapshots_awaiting:
  "awaiting_final (expire_snapshots cfg now s)
     = dropWhile (\<lambda>snap. expiry_ms snap \<le> now) (awaiting_final s)"
  by (induction cfg now s rule: expire_snapshots.induct;
      subst expire_snapshots.simps; simp add: Let_def split: list.splits)

lemma expire_snapshots_stable_prefix:
  "prefix (stable s) (stable (expire_snapshots cfg now s))"
proof (induction cfg now s rule: expire_snapshots.induct)
  case (1 cfg now s)
  show ?case
  proof (cases "awaiting_final s")
    case Nil
    then show ?thesis by (subst expire_snapshots.simps) simp
  next
    case (Cons snap rest)
    show ?thesis
    proof (cases "expiry_ms snap \<le> now")
      case True
      from 1 [OF Cons True] show ?thesis
        by (subst expire_snapshots.simps) (auto simp: Cons True Let_def dest: append_prefixD)
    next
      case False
      with Cons show ?thesis by (subst expire_snapshots.simps) simp
    qed
  qed
qed

lemma snapshot_pending_fields [simp]:
  "stable (snapshot_pending cfg now s) = stable s"
  "pending_tokens (snapshot_pending cfg now s) = pending_tokens s"
  "partial_history (snapshot_pending cfg now s) = partial_history s"
  "segment_id (snapshot_pending cfg now s) = segment_id s"
  "segment_started_ms (snapshot_pending cfg now s) = segment_started_ms s"
  "acc_metrics (snapshot_pending cfg now s) = acc_metrics s"
  "time_calls (snapshot_pending cfg now s) = time_calls s"
  by (simp_all add: snapshot_pending_def)

lemma force_segment_break_fields [simp]:
  "stable (force_segment_break cfg clk now_ms s) = stable s"
  "pending_tokens (force_segment_break cfg clk now_ms s) = []"
  "partial_history (force_segment_break cfg clk now_ms s) = partial_history s"
  "segment_id (force_segment_break cfg clk now_ms s) = segment_id s + 1"
  "segment_started_ms (force_segment_break cfg clk now_ms s) = Some (fst (resolve_now clk now_ms s))"
  by (simp_all add: force_segment_break_def Let_def case_prod_beta)


lemma promote_collect_fields [simp]:
  "stable (snd (promote_collect cfg clk batch s)) = stable s"
  "awaiting_final (snd (promote_collect cfg clk batch s)) = awaiting_final s"
  "partial_history (snd (promote_collect cfg clk batch s)) = partial_history s"
  "segment_id (snd (promote_collect cfg clk batch s)) = segment_id s"
  "segment_started_ms (snd (promote_collect cfg clk batch s)) = segment_started_ms s"
  by (induction cfg clk batch s rule: promote_collect.induct;
      subst promote_collect.simps; simp split: list.splits)+

lemma promote_leftmost_ready_fields [simp]:
  "awaiting_final (snd (promote_leftmost_ready cfg clk now s)) = awaiting_final s"
  "partial_history (snd (promote_leftmost_ready cfg clk now s)) = partial_history s"
  "segment_id (snd (promote_leftmost_ready cfg clk now s)) = segment_id s"
  "segment_started_ms (snd (promote_leftmost_ready cfg clk now s)) = segment_started_ms s"
  by (simp_all add: promote_leftmost_ready_def Let_def case_prod_beta)

lemma promote_leftmost_ready_stable_prefix:
  "prefix (stable s) (stable (snd (promote_leftmost_ready cfg clk now s)))"
  by (simp add: promote_leftmost_ready_def Let_def case_prod_beta)

lemma lcp_len_le: "lcp_len a b \<le> length a"
  by (induction a b rule: lcp_len.induct) simp_all

lemma align_pending_total:
  "\<exists>s'. align_pending clk cur s = Inr s'"
  using lcp_len_le [of "map tok_text (pending_tokens s)" cur]
  by (simp add: align_pending_def Let_def)

lemma align_pending_fields:
  assumes "align_pending clk cur s = Inr s'"
  shows "stable s' = stable s" "awaiting_final s' = awaiting_final s"
    "partial_history s' = partial_history s" "segment_id s' = segment_id s"
    "segment_started_ms s' = segment_started_ms s" "acc_metrics s' = acc_metrics s"
  using assms by (auto simp: align_pending_def Let_def split: if_splits)


lemma call_now_count [simp]:
  "call_now clk now_ms (count_partial s) = call_now clk now_ms s"
  "call_now clk now_ms (count_final s) = call_now clk now_ms s"
  by (simp_all add: call_now_def count_partial_def count_final_def resolve_now_def now_ms_of_def
        time_fn_def split: option.splits)

lemma count_fields [simp]:
  "stable (count_partial s) = stable s" "stable (count_final s) = stable s"
  "pending_tokens (count_partial s) = pending_tokens s"
  "pending_tokens (count_final s) = pending_tokens s"
  "awaiting_final (count_partial s) = awaiting_final s"
  "awaiting_final (count_final s) = awaiting_final s"
  "segment_id (count_partial s) = segment_id s" "segment_id (count_final s) = segment_id s"
  "segment_started_ms (count_partial s) = segment_started_ms s"
  "segment_started_ms (count_final s) = segment_started_ms s"
  "time_calls (count_partial s) = time_calls s" "time_calls (count_final s) = time_calls s"
  by (simp_all add: count_partial_def count_final_def)

lemma entry_state_fields [simp]:
  "pending_tokens (entry_state cfg clk now_ms s) = pending_tokens s"
  "segment_id (entry_state cfg clk now_ms s) = segment_id s"
  "time_calls (entry_state cfg clk now_ms s) = time_calls (snd (resolve_now clk now_ms s))"
  by (simp_all add: entry_state_def)

lemma entry_state_awaiting:
  "awaiting_final (entry_state cfg clk now_ms s)
     = dropWhile (\<lambda>snap. expiry_ms snap \<le> call_now clk now_ms s) (awaiting_final s)"
  by (simp add: entry_state_def expire_snapshots_awaiting)

lemma entry_state_stable_prefix: "prefix (stable s) (stable (entry_state cfg clk now_ms s))"
  using expire_snapshots_stable_prefix
          [of "ensure_segment_started (call_now clk now_ms s) (snd (resolve_now clk now_ms s))"
              cfg "call_now clk now_ms s"]
  by (simp add: entry_state_def)

lemma add_partial_unfold:
  "add_partial cfg clk inp now_ms s =
     (case align_pending clk (tokenize inp)
             (record_partial_history cfg (tokenize inp) (call_now clk now_ms s)
                (entry_state cfg clk now_ms (count_partial s))) of
        Inl e \<Rightarrow> Inl e
      | Inr s6 \<Rightarrow>
          Inr (build_display_event False (exit_partial cfg clk (call_now clk now_ms s) s6),
               exit_partial cfg clk (call_now clk now_ms s) s6))"
proof -
  have now: "fst (resolve_now clk now_ms (count_partial s)) = call_now clk now_ms s"
    using call_now_count(1) [of clk now_ms s] by (simp add: call_now_def)
  show ?thesis
    unfolding add_partial_def Let_def case_prod_beta count_partial_def [symmetric] now
    by (simp add: entry_state_def exit_partial_def call_now_def now [unfolded call_now_def]
          split: sum.splits option.splits)
qed

lemma add_partial_Inr:
  "\<exists>s6. align_pending clk (tokenize inp)
            (record_partial_history cfg (tokenize inp) (call_now clk now_ms s)
               (entry_state cfg clk now_ms (count_partial s))) = Inr s6
        \<and> add_partial cfg clk inp now_ms s =
            Inr (build_display_event False (exit_partial cfg clk (call_now clk now_ms s) s6),
                 exit_partial cfg clk (call_now clk now_ms s) s6)"
proof -
  obtain s6 where "align_pending clk (tokenize inp)
            (record_partial_history cfg (tokenize inp) (call_now clk now_ms s)
               (entry_state cfg clk now_ms (count_partial s))) = Inr s6"
    using align_pending_total by blast
  then show ?thesis by (simp add: add_partial_unfold)
qed

lemma exit_partial_stable_prefix: "prefix (stable s) (stable (exit_partial cfg clk now s))"
  using promote_leftmost_ready_stable_prefix [of s cfg clk now]
  by (simp add: exit_partial_def split: option.splits)

lemma add_partial_stable_prefix:
  assumes "add_partial cfg clk inp now_ms s = Inr (ev, s')"
  shows "prefix (stable s) (stable s')"
proof -
  from add_partial_Inr [of clk inp cfg now_ms s] assms obtain s6 where
    s6: "align_pending clk (tokenize inp)
            (record_partial_history cfg (tokenize inp) (call_now clk now_ms s)
               (entry_state cfg clk now_ms (count_partial s))) = Inr s6"
    and s': "s' = exit_partial cfg clk (call_now clk now_ms s) s6"
    by auto
  have "prefix (stable s) (stable (entry_state cfg clk now_ms (count_partial s)))"
    using entry_state_stable_prefix [of "count_partial s" cfg clk now_ms] by simp
  moreover have "stable s6 = stable (entry_state cfg clk now_ms (count_partial s))"
    using align_pending_fields(1) [OF s6] by simp
  moreover have "prefix (stable s6) (stable s')"
    unfolding s' by (rule exit_partial_stable_prefix)
  ultimately show ?thesis by (metis prefix_order.order_trans)
qed

subsection \<open>Deduplicator\<close>

lemma full_duplicate_iff:
  "full_duplicate n r \<longleftrightarrow> (\<exists>i. i < length r - length n + 1 \<and> take (length n) (drop i r) = n)"
  unfolding full_duplicate_def list_ex_iff set_upt by auto

lemma full_duplicate_sublistI:
  assumes "r = ps @ n @ ss"
  shows "full_duplicate n r"
  unfolding full_duplicate_iff
proof (intro exI conjI)
  show "length ps < length r - length n + 1" using assms by simp
  show "take (length n) (drop (length ps) r) = n" using assms by simp
qed

text \<open>
  Claim C6. Let \<open>cand\<close> be non-empty, deduplication enabled and \<open>stable\<close> non-empty;
  let \<open>W = max(dedup_window_size, 3 * |cand|)\<close> and \<open>recent\<close> the last \<open>W\<close> elements of
  \<open>stable\<close>. If \<open>|cand| \<le> |recent|\<close> and a contiguous subsequence of \<open>recent\<close> equals
  \<open>cand\<close> under case folding, the deduplicator returns the empty list,
  \<open>dedup_full_blocks\<close> grows by one, \<open>dedup_tokens_removed\<close> grows by \<open>|cand|\<close>, and
  \<open>stable\<close> is left as it was.
\<close>

theorem dedup_full_duplicate_blocks:
  assumes cand: "cand \<noteq> []"
    and enabled: "dedup_enabled cfg"
    and nonempty: "stable s \<noteq> []"
    and W: "W = max (dedup_window_size cfg) (3 * int (length cand))"
    and recent: "recent = drop (length (stable s) - nat W) (stable s)"
    and len: "length cand \<le> length recent"
    and sub: "\<exists>ps ss. map lower recent = ps @ map lower cand @ ss"
  shows "fst (deduplicate_before_commit cfg cand s) = []
       \<and> dedup_full_blocks (acc_metrics (snd (deduplicate_before_commit cfg cand s)))
           = dedup_full_blocks (acc_metrics s) + 1
       \<and> dedup_tokens_removed (acc_metrics (snd (deduplicate_before_commit cfg cand s)))
           = dedup_tokens_removed (acc_metrics s) + int (length cand)
       \<and> stable (snd (deduplicate_before_commit cfg cand s)) = stable s"
proof -
  have pos: "nat W \<noteq> 0" using cand W by (cases cand) auto
  have W': "max (dedup_window_size cfg) (int (length cand) * 3) = W"
    using W by (simp add: mult.commute)
  have suffix: "py_suffix (nat W) (stable s) = recent"
    using pos recent by (simp add: py_suffix_def)
  from sub obtain ps ss where "map lower recent = ps @ map lower cand @ ss" by blast
  then have dup: "full_duplicate (map lower cand) (map lower recent)"
    by (rule full_duplicate_sublistI)
  show ?thesis
    using cand enabled nonempty len dup
    by (simp add: deduplicate_before_commit_def W' suffix)
qed

theorem dedup_full_duplicate_blocks_witness:
  "fst (deduplicate_before_commit default_config [''bar''] dedup_example) = []
   \<and> dedup_full_blocks (acc_metrics (snd (deduplicate_before_commit default_config [''bar''] dedup_example))) = 1
   \<and> dedup_tokens_removed (acc_metrics (snd (deduplicate_before_commit default_config [''bar''] dedup_example))) = 1
   \<and> stable (snd (deduplicate_before_commit default_config [''bar''] dedup_example)) = [''foo'', ''Bar'', ''baz'']"
proof -
  have st: "stable dedup_example = [''foo'', ''Bar'', ''baz'']"
    by (simp add: dedup_example_def)
  have m: "dedup_full_blocks (acc_metrics dedup_example) = 0"
      "dedup_tokens_removed (acc_metrics dedup_example) = 0"
    by (simp_all add: dedup_example_def init_accumulator_def zero_metrics_def)
  have h1: "[''bar''] \<noteq> []" by simp
  have h2: "dedup_enabled default_config" by (simp add: default_config_def)
  have h3: "stable dedup_example \<noteq> []" by (simp add: st)
  have h4: "(30::int) = max (dedup_window_size default_config) (3 * int (length [''bar'']))"
    by (simp add: default_config_def)
  have h5: "[''foo'', ''Bar'', ''baz''] = drop (length (stable dedup_example) - nat 30) (stable dedup_example)"
    by (simp add: st)
  have h6: "length [''bar''] \<le> length [''foo'', ''Bar'', ''baz'']" by simp
  have "map lower [''foo'', ''Bar'', ''baz''] = [''foo''] @ map lower [''bar''] @ [''baz'']"
    by (simp add: lower_def lower_char_def upper_chars_def lower_chars_def)
  then have h7: "\<exists>ps ss. map lower [''foo'', ''Bar'', ''baz''] = ps @ map lower [''bar''] @ ss"
    by blast
  show ?thesis
    using dedup_full_duplicate_blocks [OF h1 h2 h3 h4 h5 h6 h7] by (simp add: st m)
qed


subsection \<open>Selection of the context for a final\<close>

lemma first_max_fold:
  fixes ov :: "'c \<Rightarrow> nat" and key :: "'b \<Rightarrow> nat"
  assumes step: "\<And>b c. f b c = (if ov c > key b then val c else b)"
    and key_val: "\<And>c. key (val c) = ov c"
  shows "(foldl f b0 cs = b0 \<and> (\<forall>c\<in>set cs. ov c \<le> key b0))
       \<or> (\<exists>ys c zs. cs = ys @ c # zs \<and> foldl f b0 cs = val c \<and> key b0 < ov c
             \<and> (\<forall>y\<in>set ys. ov y < ov c) \<and> (\<forall>z\<in>set zs. ov z \<le> ov c))"
proof (induction cs arbitrary: b0)
  case Nil
  show ?case by simp
next
  case (Cons c cs)
  show ?case
  proof (cases "ov c > key b0")
    case True
    then have f: "f b0 c = val c" by (simp add: step)
    from Cons.IH [of "val c"] show ?thesis
    proof
      assume "foldl f (val c) cs = val c \<and> (\<forall>c'\<in>set cs. ov c' \<le> key (val c))"
      then have "c # cs = [] @ c # cs \<and> foldl f b0 (c # cs) = val c \<and> key b0 < ov c
                 \<and> (\<forall>y\<in>set []. ov y < ov c) \<and> (\<forall>z\<in>set cs. ov z \<le> ov c)"
        using True by (simp add: f key_val)
      then show ?thesis by blast
    next
      assume "\<exists>ys c' zs. cs = ys @ c' # zs \<and> foldl f (val c) cs = val c' \<and> key (val c) < ov c'
                \<and> (\<forall>y\<in>set ys. ov y < ov c') \<and> (\<forall>z\<in>set zs. ov z \<le> ov c')"
      then obtain ys c' zs where h: "cs = ys @ c' # zs" "foldl f (val c) cs = val c'"
          "ov c < ov c'" "\<forall>y\<in>set ys. ov y < ov c'" "\<forall>z\<in>set zs. ov z \<le> ov c'"
        by (auto simp: key_val)
      then have "c # cs = (c # ys) @ c' # zs \<and> foldl f b0 (c # cs) = val c' \<and> key b0 < ov c'
                 \<and> (\<forall>y\<in>set (c # ys). ov y < ov c') \<and> (\<forall>z\<in>set zs. ov z \<le> ov c')"
        using True by (simp add: f)
      then show ?thesis by blast
    qed
  next
    case False
    then have f: "f b0 c = b0" by (simp add: step)
    from Cons.IH [of b0] show ?thesis
    proof
      assume "foldl f b0 cs = b0 \<and> (\<forall>c'\<in>set cs. ov c' \<le> key b0)"
      then show ?thesis using False by (simp add: f)
    next
      assume "\<exists>ys c' zs. cs = ys @ c' # zs \<and> foldl f b0 cs = val c' \<and> key b0 < ov c'
                \<and> (\<forall>y\<in>set ys. ov y < ov c') \<and> (\<forall>z\<in>set zs. ov z \<le> ov c')"
      then obtain ys c' zs where h: "cs = ys @ c' # zs" "foldl f b0 cs = val c'"
          "key b0 < ov c'" "\<forall>y\<in>set ys. ov y < ov c'" "\<forall>z\<in>set zs. ov z \<le> ov c'"
        by auto
      then have "c # cs = (c # ys) @ c' # zs \<and> foldl f b0 (c # cs) = val c' \<and> key b0 < ov c'
                 \<and> (\<forall>y\<in>set (c # ys). ov y < ov c') \<and> (\<forall>z\<in>set zs. ov z \<le> ov c')"
        using False by (simp add: f)
      then show ?thesis by blast
    qed
  qed
qed


lemma snapshot_fold_cases:
  fixes s :: accumulator and fin :: "string list"
  defines "n \<equiv> length (awaiting_final s)"
    and "st \<equiv> py_suffix 64 (stable s)"
    and "pend \<equiv> map tok_text (pending_tokens s)"
  defines "best \<equiv> foldl (context_step s fin st pend) ([], None, 0, 0, 0, 0)
                      (zip [0 ..< n] (rev (awaiting_final s)))"
  shows "(best = ([], None, 0, 0, 0, 0) \<and> (\<forall>j<n. snap_overlap s fin j = 0))
       \<or> (\<exists>i<n. best = (snap_context s i, Some i, length st,
                          length (tokens (awaiting_final s ! i)), length pend,
                          snap_overlap s fin i)
               \<and> 0 < snap_overlap s fin i
               \<and> (\<forall>j<n. i < j \<longrightarrow> snap_overlap s fin j < snap_overlap s fin i)
               \<and> (\<forall>j<n. snap_overlap s fin j \<le> snap_overlap s fin i))"
proof -
  define aw where "aw = awaiting_final s"
  define cs where "cs = zip [0 ..< n] (rev aw)"
  define ov where "ov = (\<lambda>c :: nat \<times> snapshot.
     longest_suffix_prefix (st @ map tok_text (tokens (snd c)) @ pend) fin)"
  define val where "val = (\<lambda>c :: nat \<times> snapshot.
     (st @ map tok_text (tokens (snd c)) @ pend, Some (n - 1 - fst c), length st,
      length (map tok_text (tokens (snd c))), length pend, ov c))"
  have len: "length cs = n" by (simp add: cs_def aw_def n_def)
  have nth: "cs ! k = (k, aw ! (n - 1 - k))" if "k < n" for k
    using that by (simp add: cs_def aw_def n_def rev_nth)
  have ov_nth: "ov (cs ! k) = snap_overlap s fin (n - 1 - k)" if "k < n" for k
    using that by (simp add: nth ov_def snap_overlap_def snap_context_def st_def pend_def aw_def)
  have ov_idx: "snap_overlap s fin j = ov (cs ! (n - 1 - j))" if "j < n" for j
    using that ov_nth [of "n - 1 - j"] by simp
  have step: "context_step s fin st pend b c = (if ov c > best_overlap_of b then val c else b)"
    for b c
    by (simp add: context_step_def Let_def val_def ov_def n_def)
  have key: "best_overlap_of (val c) = ov c" for c
    by (simp add: best_overlap_of_def val_def)
  have b0: "best_overlap_of ([], None, 0, 0, 0, 0) = 0"
    by (simp add: best_overlap_of_def)
  from first_max_fold [where f = "context_step s fin st pend" and ov = ov and val = val
         and key = best_overlap_of and ?b0.0 = "([], None, 0, 0, 0, 0)" and cs = cs,
         OF step key]
  show ?thesis
  proof
    assume h: "foldl (context_step s fin st pend) ([], None, 0, 0, 0, 0) cs = ([], None, 0, 0, 0, 0)
               \<and> (\<forall>c\<in>set cs. ov c \<le> best_overlap_of ([], None, 0, 0, 0, 0))"
    have "snap_overlap s fin j = 0" if "j < n" for j
    proof -
      have "cs ! (n - 1 - j) \<in> set cs" using that len by simp
      with h have "ov (cs ! (n - 1 - j)) \<le> 0" by (simp add: b0)
      then show ?thesis using ov_idx [OF that] by simp
    qed
    with h show ?thesis by (simp add: best_def cs_def aw_def)
  next
    assume "\<exists>ys c zs. cs = ys @ c # zs
              \<and> foldl (context_step s fin st pend) ([], None, 0, 0, 0, 0) cs = val c
              \<and> best_overlap_of ([], None, 0, 0, 0, 0) < ov c
              \<and> (\<forall>y\<in>set ys. ov y < ov c) \<and> (\<forall>z\<in>set zs. ov z \<le> ov c)"
    then obtain ys c zs where split: "cs = ys @ c # zs"
      and res: "foldl (context_step s fin st pend) ([], None, 0, 0, 0, 0) cs = val c"
      and pos: "0 < ov c"
      and newer: "\<forall>y\<in>set ys. ov y < ov c"
      and older: "\<forall>z\<in>set zs. ov z \<le> ov c"
      by (auto simp: b0)
    define k where "k = length ys"
    have k: "k < n" using split len by (simp add: k_def)
    have c: "c = cs ! k" using split by (simp add: k_def)
    define i where "i = n - 1 - k"
    have i: "i < n" using k by (simp add: i_def)
    have ovc: "ov c = snap_overlap s fin i" using ov_nth [OF k] by (simp add: c i_def)
    have valc: "val c = (snap_context s i, Some i, length st,
                   length (tokens (awaiting_final s ! i)), length pend, snap_overlap s fin i)"
      using nth [OF k] ovc
      by (simp add: val_def c i_def snap_context_def st_def pend_def aw_def)
    have all: "snap_overlap s fin j \<le> snap_overlap s fin i" if "j < n" for j
    proof -
      have "cs ! (n - 1 - j) \<in> set cs" using that len by simp
      then have "cs ! (n - 1 - j) \<in> set ys \<or> cs ! (n - 1 - j) = c \<or> cs ! (n - 1 - j) \<in> set zs"
        using split by auto
      then have "ov (cs ! (n - 1 - j)) \<le> ov c"
        using newer older by (auto intro: less_imp_le)
      then show ?thesis using ov_idx [OF that] ovc by simp
    qed
    have strict: "snap_overlap s fin j < snap_overlap s fin i" if "j < n" "i < j" for j
    proof -
      have lt: "n - 1 - j < k" using that k by (simp add: i_def)
      then have "cs ! (n - 1 - j) = ys ! (n - 1 - j)"
        using split by (simp add: k_def nth_append)
      then have "cs ! (n - 1 - j) \<in> set ys" using lt by (simp add: k_def)
      with newer have "ov (cs ! (n - 1 - j)) < ov c" by simp
      then show ?thesis using ov_idx [OF that(1)] ovc by simp
    qed
    have "best = val c" using res by (simp add: best_def cs_def aw_def)
    with valc pos ovc i all strict show ?thesis by auto
  qed
qed


lemma build_context_cases:
  fixes s :: accumulator and fin :: "string list"
  defines "n \<equiv> length (awaiting_final s)"
  shows "(build_context_for_final s fin = ([], None, 0, 0, 0)
            \<and> nosnap_overlap s fin = 0 \<and> (\<forall>j<n. snap_overlap s fin j = 0))
       \<or> (build_context_for_final s fin
              = (nosnap_context s, None, length (py_suffix 64 (stable s)), 0,
                 length (pending_tokens s))
            \<and> 0 < nosnap_overlap s fin
            \<and> (\<forall>j<n. snap_overlap s fin j < nosnap_overlap s fin))
       \<or> (\<exists>i<n. build_context_for_final s fin
                     = (snap_context s i, Some i, length (py_suffix 64 (stable s)),
                        length (tokens (awaiting_final s ! i)), length (pending_tokens s))
               \<and> 0 < snap_overlap s fin i
               \<and> nosnap_overlap s fin \<le> snap_overlap s fin i
               \<and> (\<forall>j<n. i < j \<longrightarrow> snap_overlap s fin j < snap_overlap s fin i)
               \<and> (\<forall>j<n. snap_overlap s fin j \<le> snap_overlap s fin i))"
proof -
  define st where "st = py_suffix 64 (stable s)"
  define pend where "pend = map tok_text (pending_tokens s)"
  define best where "best = foldl (context_step s fin st pend) ([], None, 0, 0, 0, 0)
                      (zip [0 ..< n] (rev (awaiting_final s)))"
  define m0 where "m0 = nosnap_overlap s fin"
  have m0: "longest_suffix_prefix (st @ pend) fin = m0"
    by (simp add: m0_def nosnap_overlap_def nosnap_context_def st_def pend_def)
  have bc: "build_context_for_final s fin =
          (let best' = (if m0 > best_overlap_of best
                        then (st @ pend, None, length st, 0, length pend, m0) else best)
           in (fst best', fst (snd best'), fst (snd (snd best')),
               fst (snd (snd (snd best'))), fst (snd (snd (snd (snd best'))))))"
    unfolding build_context_for_final_def Let_def
    by (simp add: st_def pend_def best_def n_def m0 [unfolded st_def pend_def])
  have ctx0: "st @ pend = nosnap_context s"
    by (simp add: nosnap_context_def st_def pend_def)
  from snapshot_fold_cases [of s fin]
  have "(best = ([], None, 0, 0, 0, 0) \<and> (\<forall>j<n. snap_overlap s fin j = 0))
       \<or> (\<exists>i<n. best = (snap_context s i, Some i, length st,
                          length (tokens (awaiting_final s ! i)), length pend,
                          snap_overlap s fin i)
               \<and> 0 < snap_overlap s fin i
               \<and> (\<forall>j<n. i < j \<longrightarrow> snap_overlap s fin j < snap_overlap s fin i)
               \<and> (\<forall>j<n. snap_overlap s fin j \<le> snap_overlap s fin i))"
    by (simp add: best_def st_def pend_def n_def)
  then show ?thesis
  proof
    assume h: "best = ([], None, 0, 0, 0, 0) \<and> (\<forall>j<n. snap_overlap s fin j = 0)"
    show ?thesis
    proof (cases "0 < m0")
      case True
      with h have "build_context_for_final s fin = (nosnap_context s, None, length st, 0, length pend)"
        by (simp add: bc best_overlap_of_def ctx0)
      with True h show ?thesis by (simp add: m0_def st_def pend_def)
    next
      case False
      with h have "build_context_for_final s fin = ([], None, 0, 0, 0)"
        by (simp add: bc best_overlap_of_def)
      with False h show ?thesis by (simp add: m0_def)
    qed
  next
    assume "\<exists>i<n. best = (snap_context s i, Some i, length st,
                          length (tokens (awaiting_final s ! i)), length pend,
                          snap_overlap s fin i)
               \<and> 0 < snap_overlap s fin i
               \<and> (\<forall>j<n. i < j \<longrightarrow> snap_overlap s fin j < snap_overlap s fin i)
               \<and> (\<forall>j<n. snap_overlap s fin j \<le> snap_overlap s fin i)"
    then obtain i where i: "i < n"
      and best: "best = (snap_context s i, Some i, length st,
                          length (tokens (awaiting_final s ! i)), length pend,
                          snap_overlap s fin i)"
      and pos: "0 < snap_overlap s fin i"
      and newer: "\<forall>j<n. i < j \<longrightarrow> snap_overlap s fin j < snap_overlap s fin i"
      and all: "\<forall>j<n. snap_overlap s fin j \<le> snap_overlap s fin i"
      by blast
    show ?thesis
    proof (cases "m0 > snap_overlap s fin i")
      case True
      then have "build_context_for_final s fin = (nosnap_context s, None, length st, 0, length pend)"
        by (simp add: bc best best_overlap_of_def ctx0)
      moreover have "\<forall>j<n. snap_overlap s fin j < m0"
        using all True by (meson le_less_trans)
      moreover have "0 < m0" using True by simp
      ultimately show ?thesis by (simp add: m0_def st_def pend_def)
    next
      case False
      then have "build_context_for_final s fin
                   = (snap_context s i, Some i, length st,
                      length (tokens (awaiting_final s ! i)), length pend)"
        by (simp add: bc best best_overlap_of_def)
      moreover have "m0 \<le> snap_overlap s fin i" using False by simp
      ultimately have "\<exists>i<n. build_context_for_final s fin
                     = (snap_context s i, Some i, length (py_suffix 64 (stable s)),
                        length (tokens (awaiting_final s ! i)), length (pending_tokens s))
               \<and> 0 < snap_overlap s fin i
               \<and> nosnap_overlap s fin \<le> snap_overlap s fin i
               \<and> (\<forall>j<n. i < j \<longrightarrow> snap_overlap s fin j < snap_overlap s fin i)
               \<and> (\<forall>j<n. snap_overlap s fin j \<le> snap_overlap s fin i)"
        using i pos newer all by (auto simp: m0_def st_def pend_def)
      then show ?thesis by blast
    qed
  qed
qed

lemma max_overlap_Max:
  "max_overlap s fin
     = Max (insert (nosnap_overlap s fin) (snap_overlap s fin ` {..< length (awaiting_final s)}))"
proof -
  have "max_overlap s fin
          = Max (set (nosnap_overlap s fin
                        # map (snap_overlap s fin) [0 ..< length (awaiting_final s)]))"
    unfolding max_overlap_def by (rule Max.set_eq_fold [symmetric])
  then show ?thesis by (simp add: atLeast0LessThan)
qed

lemma max_overlap_ge:
  "nosnap_overlap s fin \<le> max_overlap s fin"
  "j < length (awaiting_final s) \<Longrightarrow> snap_overlap s fin j \<le> max_overlap s fin"
  by (simp_all add: max_overlap_Max)

lemma max_overlap_attained:
  "max_overlap s fin = nosnap_overlap s fin
     \<or> (\<exists>j < length (awaiting_final s). max_overlap s fin = snap_overlap s fin j)"
proof -
  have "max_overlap s fin
          \<in> insert (nosnap_overlap s fin) (snap_overlap s fin ` {..< length (awaiting_final s)})"
    unfolding max_overlap_Max by (rule Max_in) simp_all
  then show ?thesis by auto
qed

text \<open>
  Claim C5, amended. Let \<open>M\<close> be the greatest overlap over all candidate contexts of
  \<open>add_final\<close>. If \<open>M\<close> is positive, the returned context attains \<open>M\<close>; it is the
  context of a snapshot whenever some snapshot attains \<open>M\<close> (also when the context without
  a snapshot attains \<open>M\<close> as well), and then of the newest such snapshot; otherwise it is
  the context without a snapshot. If \<open>M\<close> is zero, no snapshot is selected and the returned
  context is empty.
\<close>

theorem context_selection:
  "(0 < max_overlap s fin \<longrightarrow>
      longest_suffix_prefix (chosen_context s fin) fin = max_overlap s fin
      \<and> (if \<exists>i < length (awaiting_final s). snap_overlap s fin i = max_overlap s fin
         then \<exists>i < length (awaiting_final s).
                chosen_snapshot s fin = Some i
                \<and> chosen_context s fin = snap_context s i
                \<and> snap_overlap s fin i = max_overlap s fin
                \<and> (\<forall>j < length (awaiting_final s). i < j \<longrightarrow> snap_overlap s fin j < max_overlap s fin)
         else chosen_snapshot s fin = None \<and> chosen_context s fin = nosnap_context s))
   \<and> (max_overlap s fin = 0 \<longrightarrow> chosen_snapshot s fin = None \<and> chosen_context s fin = [])"
proof -
  let ?n = "length (awaiting_final s)"
  let ?M = "max_overlap s fin"
  note ge = max_overlap_ge [where s = s and fin = fin]
  from build_context_cases [of s fin]
  consider
    (zero) "build_context_for_final s fin = ([], None, 0, 0, 0)"
      "nosnap_overlap s fin = 0" "\<forall>j<?n. snap_overlap s fin j = 0"
  | (nosnap) "build_context_for_final s fin
              = (nosnap_context s, None, length (py_suffix 64 (stable s)), 0,
                 length (pending_tokens s))"
      "0 < nosnap_overlap s fin" "\<forall>j<?n. snap_overlap s fin j < nosnap_overlap s fin"
  | (snap) i where "i < ?n"
      "build_context_for_final s fin
         = (snap_context s i, Some i, length (py_suffix 64 (stable s)),
            length (tokens (awaiting_final s ! i)), length (pending_tokens s))"
      "0 < snap_overlap s fin i" "nosnap_overlap s fin \<le> snap_overlap s fin i"
      "\<forall>j<?n. i < j \<longrightarrow> snap_overlap s fin j < snap_overlap s fin i"
      "\<forall>j<?n. snap_overlap s fin j \<le> snap_overlap s fin i"
    by (elim disjE exE conjE) blast+
  then show ?thesis
  proof cases
    case zero
    have "?M = 0" using max_overlap_attained [of s fin] zero(2,3) by auto
    with zero(1) show ?thesis by (simp add: chosen_context_def chosen_snapshot_def)
  next
    case nosnap
    have M: "?M = nosnap_overlap s fin"
      using max_overlap_attained [of s fin] nosnap(3) ge(1) by (auto simp: not_less [symmetric])
    have "\<not> (\<exists>i<?n. snap_overlap s fin i = ?M)" using nosnap(3) M by auto
    with nosnap(1,2) M show ?thesis
      by (simp add: chosen_context_def chosen_snapshot_def nosnap_overlap_def)
  next
    case (snap i)
    have M: "?M = snap_overlap s fin i"
      using max_overlap_attained [of s fin] snap(1,4,6) ge(2) [OF snap(1)]
      by (auto intro: le_antisym)
    have "\<exists>i'<?n. chosen_snapshot s fin = Some i'
            \<and> chosen_context s fin = snap_context s i'
            \<and> snap_overlap s fin i' = ?M
            \<and> (\<forall>j<?n. i' < j \<longrightarrow> snap_overlap s fin j < ?M)"
      using snap(1,2,5) M by (intro exI [of _ i]) (simp add: chosen_context_def chosen_snapshot_def)
    moreover have "\<exists>i<?n. snap_overlap s fin i = ?M" using snap(1) M by auto
    moreover have "longest_suffix_prefix (chosen_context s fin) fin = ?M"
      using snap(2) M by (simp add: chosen_context_def snap_overlap_def)
    ultimately show ?thesis using snap(3) M by simp
  qed
qed

lemmas overlap_eval =
  max_overlap_def snap_overlap_def nosnap_overlap_def snap_context_def nosnap_context_def
  longest_suffix_prefix_def py_suffix_def lower_def lower_char_def upper_chars_def
  lower_chars_def

theorem context_selection_witness:
  "0 < max_overlap rescue_example [''b'', ''c'']
   \<and> snap_overlap rescue_example [''b'', ''c''] 0 = max_overlap rescue_example [''b'', ''c'']
   \<and> nosnap_overlap rescue_example [''b'', ''c''] = max_overlap rescue_example [''b'', ''c'']
   \<and> chosen_snapshot rescue_example [''b'', ''c''] = Some 0
   \<and> chosen_context rescue_example [''b'', ''c''] = [''a'', ''b'', ''b'']"
proof -
  have n: "length (awaiting_final rescue_example) = 1"
    by (simp add: rescue_example_def)
  have M: "max_overlap rescue_example [''b'', ''c''] = 1"
    by (simp add: overlap_eval rescue_example_def init_accumulator_def)
  have ov: "snap_overlap rescue_example [''b'', ''c''] 0 = 1"
    by (simp add: overlap_eval rescue_example_def init_accumulator_def)
  have m0: "nosnap_overlap rescue_example [''b'', ''c''] = 1"
    by (simp add: overlap_eval rescue_example_def init_accumulator_def)
  have ctx: "snap_context rescue_example 0 = [''a'', ''b'', ''b'']"
    by (simp add: overlap_eval rescue_example_def init_accumulator_def)
  have tie: "\<exists>i < length (awaiting_final rescue_example).
               snap_overlap rescue_example [''b'', ''c''] i = max_overlap rescue_example [''b'', ''c'']"
    using n ov M by auto
  from context_selection [of rescue_example "[''b'', ''c'']"] tie
  have "\<exists>i < length (awaiting_final rescue_example).
          chosen_snapshot rescue_example [''b'', ''c''] = Some i
          \<and> chosen_context rescue_example [''b'', ''c''] = snap_context rescue_example i"
    by (auto simp: M)
  then show ?thesis using n M ov m0 ctx by auto
qed

text \<open>
  The claim as first stated fails when the greatest overlap is zero: the snapshot candidate
  and the candidate without a snapshot tie, and no snapshot is selected.
\<close>

theorem zero_overlap_tie_selects_no_snapshot:
  "snap_overlap tie_example [''b''] 0 = max_overlap tie_example [''b'']
   \<and> nosnap_overlap tie_example [''b''] = max_overlap tie_example [''b'']
   \<and> chosen_snapshot tie_example [''b''] = None"
  by (simp add: overlap_eval chosen_snapshot_def build_context_for_final_def context_step_def
        best_overlap_of_def tie_example_def init_accumulator_def)

subsection \<open>Lemmas on add_final\<close>

lemma add_final_unfold:
  "add_final cfg clk inp now_ms s =
     (if tokenize inp = []
      then Inr (build_display_event True
                  (force_segment_break cfg clk (Some (call_now clk now_ms s))
                     (entry_state cfg clk now_ms (count_final s))),
                force_segment_break cfg clk (Some (call_now clk now_ms s))
                  (entry_state cfg clk now_ms (count_final s)))
      else
        case rescue_step cfg (tokenize inp) (entry_state cfg clk now_ms (count_final s)) of
          Inl e \<Rightarrow> Inl e
        | Inr r \<Rightarrow>
            Inr (build_display_event True
                   (exit_final cfg (call_now clk now_ms s) (tokenize inp)
                      (longest_suffix_prefix
                         (chosen_context (entry_state cfg clk now_ms (count_final s)) (tokenize inp))
                         (tokenize inp))
                      (snd r)),
                 exit_final cfg (call_now clk now_ms s) (tokenize inp)
                   (longest_suffix_prefix
                      (chosen_context (entry_state cfg clk now_ms (count_final s)) (tokenize inp))
                      (tokenize inp))
                   (snd r)))"
proof -
  have now: "fst (resolve_now clk now_ms (count_final s)) = call_now clk now_ms s"
    using call_now_count(2) [of clk now_ms s] by (simp add: call_now_def)
  show ?thesis
    unfolding add_final_def Let_def case_prod_beta count_final_def [symmetric] now
    by (simp add: entry_state_def exit_final_def rescue_step_def chosen_context_def call_now_def
          now [unfolded call_now_def] Let_def case_prod_beta
          split: sum.splits option.splits)
qed


lemma rescue_orphans_total:
  assumes "i < length (awaiting_final s)"
  shows "\<exists>r. rescue_orphans cfg i lst (length (tokens (awaiting_final s ! i))) os s = Inr r"
proof -
  have "nat (min (int lst + int (length (tokens (awaiting_final s ! i))) - 1) (os - 1) - int lst + 1)
          \<le> length (tokens (awaiting_final s ! i))"
    by simp
  then show ?thesis
    using assms by (simp add: rescue_orphans_def Let_def case_prod_beta not_less [symmetric])
qed


lemma rescue_orphans_stable_prefix:
  assumes "rescue_orphans cfg i lst lsn os s = Inr r"
  shows "prefix (stable s) (stable (snd r))"
  using assms
  by (auto simp: rescue_orphans_def Let_def case_prod_beta split: if_splits)

lemma expiry_list_update:
  assumes "i < length xs" "expiry_ms x = expiry_ms (xs ! i)"
  shows "set (map expiry_ms (xs[i := x])) \<subseteq> set (map expiry_ms xs)"
proof -
  have "map expiry_ms (xs[i := x]) = (map expiry_ms xs)[i := expiry_ms (xs ! i)]"
    using assms by (simp add: map_update)
  also have "\<dots> = map expiry_ms xs"
    using assms by (simp add: list_update_same_conv)
  finally show ?thesis by simp
qed

lemma rescue_orphans_awaiting:
  assumes "rescue_orphans cfg i lst lsn os s = Inr r"
  shows "\<exists>x. expiry_ms x = expiry_ms (awaiting_final s ! i)
           \<and> (awaiting_final (snd r) = (awaiting_final s)[i := x]
                \<or> awaiting_final (snd r) = remove1 x ((awaiting_final s)[i := x]))"
proof -
  from assms have i: "i < length (awaiting_final s)"
    by (simp add: rescue_orphans_def split: if_splits)
  define lc where "lc = nat (min (int lst + int lsn - 1) (os - 1) - int lst + 1)"
  define x where "x = (awaiting_final s ! i)\<lparr>tokens := drop lc (tokens (awaiting_final s ! i))\<rparr>"
  show ?thesis
  proof (cases "min (int lst + int lsn - 1) (os - 1) \<ge> int lst")
    case True
    have "expiry_ms x = expiry_ms (awaiting_final s ! i)" by (simp add: x_def)
    moreover have "awaiting_final (snd r) = (awaiting_final s)[i := x]
                \<or> awaiting_final (snd r) = remove1 x ((awaiting_final s)[i := x])"
      using assms i True
      by (auto simp: rescue_orphans_def Let_def case_prod_beta x_def lc_def split: if_splits)
    ultimately show ?thesis by blast
  next
    case False
    have "awaiting_final (snd r) = (awaiting_final s)[i := awaiting_final s ! i]
                \<or> awaiting_final (snd r)
                    = remove1 (awaiting_final s ! i) ((awaiting_final s)[i := awaiting_final s ! i])"
      using assms i False
      by (auto simp: rescue_orphans_def Let_def case_prod_beta split: if_splits)
    then show ?thesis by blast
  qed
qed

lemma rescue_orphans_expiry:
  assumes "rescue_orphans cfg i lst lsn os s = Inr r"
  shows "set (map expiry_ms (awaiting_final (snd r))) \<subseteq> set (map expiry_ms (awaiting_final s))"
proof -
  from assms have i: "i < length (awaiting_final s)"
    by (simp add: rescue_orphans_def split: if_splits)
  from rescue_orphans_awaiting [OF assms] obtain x where
    x: "expiry_ms x = expiry_ms (awaiting_final s ! i)"
    and aw: "awaiting_final (snd r) = (awaiting_final s)[i := x]
                \<or> awaiting_final (snd r) = remove1 x ((awaiting_final s)[i := x])"
    by blast
  have upd: "set (map expiry_ms ((awaiting_final s)[i := x])) \<subseteq> set (map expiry_ms (awaiting_final s))"
    by (rule expiry_list_update [OF i x])
  have rem: "set (map expiry_ms (remove1 x ((awaiting_final s)[i := x])))
               \<subseteq> set (map expiry_ms ((awaiting_final s)[i := x]))"
    using set_remove1_subset [of x "(awaiting_final s)[i := x]"] by auto
  from aw show ?thesis
  proof
    assume "awaiting_final (snd r) = (awaiting_final s)[i := x]"
    with upd show ?thesis by simp
  next
    assume "awaiting_final (snd r) = remove1 x ((awaiting_final s)[i := x])"
    with upd rem show ?thesis by (metis subset_trans)
  qed
qed

lemma rescue_step_total: "\<exists>r. rescue_step cfg fin s = Inr r"
proof -
  from build_context_cases [of s fin]
  consider "fst (snd (build_context_for_final s fin)) = None"
    | i where "i < length (awaiting_final s)"
        "build_context_for_final s fin
           = (snap_context s i, Some i, length (py_suffix 64 (stable s)),
              length (tokens (awaiting_final s ! i)), length (pending_tokens s))"
    by (elim disjE exE conjE) auto
  then show ?thesis
  proof cases
    case 1
    then show ?thesis by (simp add: rescue_step_def)
  next
    case (2 i)
    from rescue_orphans_total [OF 2(1)] 2(2) show ?thesis
      by (simp add: rescue_step_def)
  qed
qed


lemma rescue_step_stable_prefix:
  assumes "rescue_step cfg fin s = Inr r"
  shows "prefix (stable s) (stable (snd r))"
  using assms rescue_orphans_stable_prefix
  by (auto simp: rescue_step_def split: option.splits if_splits)

lemma rescue_step_expiry:
  assumes "rescue_step cfg fin s = Inr r"
  shows "set (map expiry_ms (awaiting_final (snd r))) \<subseteq> set (map expiry_ms (awaiting_final s))"
  using assms rescue_orphans_expiry
  by (auto simp: rescue_step_def simp del: set_map split: option.splits if_splits)

lemma exit_final_fields [simp]:
  "pending_tokens (exit_final cfg now fin m s) = []"
  "segment_id (exit_final cfg now fin m s) = segment_id s + 1"
  "segment_started_ms (exit_final cfg now fin m s) = Some now"
  "awaiting_final (exit_final cfg now fin m s) = awaiting_final s"
  "partial_history (exit_final cfg now fin m s) = partial_history s"
  "time_calls (exit_final cfg now fin m s) = time_calls s"
  by (simp_all add: exit_final_def Let_def)

lemma exit_final_stable_prefix: "prefix (stable s) (stable (exit_final cfg now fin m s))"
  by (simp add: exit_final_def Let_def)

lemma add_final_total: "\<exists>r. add_final cfg clk inp now_ms s = Inr r"
  using rescue_step_total [of cfg "tokenize inp" "entry_state cfg clk now_ms (count_final s)"]
  by (auto simp: add_final_unfold)

lemma add_final_stable_prefix:
  assumes "add_final cfg clk inp now_ms s = Inr (ev, s')"
  shows "prefix (stable s) (stable s')"
proof -
  have entry: "prefix (stable s) (stable (entry_state cfg clk now_ms (count_final s)))"
    using entry_state_stable_prefix [of "count_final s" cfg clk now_ms] by simp
  show ?thesis
  proof (cases "tokenize inp = []")
    case True
    with assms entry show ?thesis by (auto simp: add_final_unfold)
  next
    case False
    with assms obtain r where
      r: "rescue_step cfg (tokenize inp) (entry_state cfg clk now_ms (count_final s)) = Inr r"
      and s': "s' = exit_final cfg (call_now clk now_ms s) (tokenize inp)
                   (longest_suffix_prefix
                      (chosen_context (entry_state cfg clk now_ms (count_final s)) (tokenize inp))
                      (tokenize inp))
                   (snd r)"
      by (auto simp: add_final_unfold split: sum.splits)
    have "prefix (stable (entry_state cfg clk now_ms (count_final s))) (stable (snd r))"
      using r by (rule rescue_step_stable_prefix)
    moreover have "prefix (stable (snd r)) (stable s')"
      unfolding s' by (rule exit_final_stable_prefix)
    ultimately show ?thesis using entry by (metis prefix_order.order_trans)
  qed
qed

subsection \<open>Monotonicity of the stable transcript, empty finals\<close>

lemma force_segment_break_awaiting:
  "awaiting_final (force_segment_break cfg clk (Some now) s)
     = awaiting_final s @
         (if pending_tokens s = [] then []
          else [\<lparr>tokens = pending_tokens s, started_ms = now,
                  expiry_ms = now + awaiting_final_ttl_ms cfg,
                  snap_segment_id = segment_id s\<rparr>])"
  by (simp add: force_segment_break_def snapshot_pending_def)

lemma apply_call_stable_prefix:
  "\<exists>s'. apply_call cfg clk c s = Inr s' \<and> prefix (stable s) (stable s')"
proof (cases c)
  case (AddPartial inp now_ms)
  obtain ev s' where r: "add_partial cfg clk inp now_ms s = Inr (ev, s')"
    using add_partial_Inr [of clk inp cfg now_ms s] by blast
  with add_partial_stable_prefix [OF r] show ?thesis by (simp add: AddPartial)
next
  case (AddFinal inp now_ms)
  obtain ev s' where r: "add_final cfg clk inp now_ms s = Inr (ev, s')"
    using add_final_total [of cfg clk inp now_ms s] by auto
  with add_final_stable_prefix [OF r] show ?thesis by (simp add: AddFinal)
next
  case (ForceSegmentBreak now_ms)
  then show ?thesis by simp
qed

lemma run_calls_stable_prefix:
  "\<exists>s'. run_calls cfg clk cs s = Inr s' \<and> prefix (stable s) (stable s')"
proof (induction cs arbitrary: s)
  case Nil
  show ?case by simp
next
  case (Cons c cs)
  from apply_call_stable_prefix [of cfg clk c s] obtain s1 where
    s1: "apply_call cfg clk c s = Inr s1" "prefix (stable s) (stable s1)" by blast
  from Cons.IH [of s1] obtain s2 where
    s2: "run_calls cfg clk cs s1 = Inr s2" "prefix (stable s1) (stable s2)" by blast
  from s1 s2 show ?case by (auto intro: prefix_order.order_trans)
qed

text \<open>
  Claim C1. From every initial state \<open>s0\<close> and after every sequence \<open>cs\<close> of calls to
  \<open>add_partial\<close>, \<open>add_final\<close> and \<open>force_segment_break\<close>, the run returns a state
  \<open>s1\<close>, every next call \<open>c\<close> returns a state \<open>s2\<close>, and \<open>stable\<close> before the call is
  a prefix of \<open>stable\<close> after it: nothing is removed, replaced or reordered.
\<close>

theorem stable_prefix_of_its_future:
  "\<exists>s1 s2. run_calls cfg clk cs s0 = Inr s1 \<and> apply_call cfg clk c s1 = Inr s2
      \<and> prefix (stable s0) (stable s1) \<and> prefix (stable s1) (stable s2)"
proof -
  from run_calls_stable_prefix [of cfg clk cs s0] obtain s1 where
    s1: "run_calls cfg clk cs s0 = Inr s1" "prefix (stable s0) (stable s1)" by blast
  from apply_call_stable_prefix [of cfg clk c s1] obtain s2 where
    s2: "apply_call cfg clk c s1 = Inr s2" "prefix (stable s1) (stable s2)" by blast
  from s1 s2 show ?thesis by blast
qed

text \<open>
  Claim C8. For every state, \<open>add_final\<close> on a text whose tokenization is empty returns
  without an error; the state it returns is that of a forced segment break at the resolved
  \<open>now\<close>, made after the expiry of snapshots: \<open>pending_tokens\<close>, when non-empty, has been
  appended to \<open>awaiting_final\<close> as a snapshot, \<open>pending_tokens\<close> is empty and
  \<open>segment_id\<close> has grown by one; the display event has \<open>is_final\<close> set.
\<close>

theorem add_final_empty_forces_break:
  assumes "tokenize inp = []"
  shows "\<exists>ev s'. add_final cfg clk inp now_ms s = Inr (ev, s')
           \<and> s' = force_segment_break cfg clk (Some (call_now clk now_ms s))
                    (entry_state cfg clk now_ms (count_final s))
           \<and> ev = build_display_event True s' \<and> is_final ev
           \<and> pending_tokens s' = []
           \<and> segment_id s' = segment_id s + 1
           \<and> segment_started_ms s' = Some (call_now clk now_ms s)
           \<and> awaiting_final s'
               = dropWhile (\<lambda>snap. expiry_ms snap \<le> call_now clk now_ms s) (awaiting_final s)
                 @ (if pending_tokens s = [] then []
                    else [\<lparr>tokens = pending_tokens s, started_ms = call_now clk now_ms s,
                            expiry_ms = call_now clk now_ms s + awaiting_final_ttl_ms cfg,
                            snap_segment_id = segment_id s\<rparr>])"
  using assms
  by (simp add: add_final_unfold force_segment_break_awaiting entry_state_awaiting
        build_display_event_def)

theorem add_final_empty_forces_break_witness:
  "tokenize '''' = []
   \<and> (\<exists>ev s'. add_final default_config (fake_clock 0) '''' (Some 1000) rescue_example = Inr (ev, s')
         \<and> is_final ev \<and> pending_tokens s' = [] \<and> segment_id s' = 2
         \<and> map expiry_ms (awaiting_final s') = [5000, 6000]
         \<and> map (map tok_text \<circ> tokens) (awaiting_final s') = [[''a'', ''b''], [''b'']])"
proof -
  have empty: "tokenize '''' = []" by (simp add: tokenize_def)
  from add_final_empty_forces_break [OF empty, of default_config "fake_clock 0" "Some 1000" rescue_example]
  show ?thesis
    using empty
    by (auto simp: call_now_def rescue_example_def init_accumulator_def default_config_def)
qed

subsection \<open>The T-timeout scenario\<close>

text \<open>
  Claim C2 (scenario 3 of the specification, the repository's test
  \<^verbatim>\<open>test_t_timeout_promotion\<close>). With \<open>K = 2\<close> and \<open>T = 1400 ms\<close>, after
  \<open>add_partial("alpha beta")\<close> at \<open>t = 0\<close> the tokens \<open>alpha\<close> and \<open>beta\<close> are pending
  and four clock values have been read. \<open>add_partial("beta gamma")\<close> at \<open>t = 1.6\<close> has
  no common prefix with the pending tokens, so both are dropped by the alignment before
  the promotion runs: \<open>stable\<close> is empty afterwards, where the claim expects \<open>alpha\<close>.
\<close>

theorem t_timeout_scenario_drops_alpha:
  "stable_and_pending
     (run_calls default_config fake_clock_0_then_1600ms [AddPartial ''alpha beta'' None]
        init_accumulator)
     = Inr ([], [''alpha'', ''beta''])
   \<and> clock_reads
       (run_calls default_config fake_clock_0_then_1600ms [AddPartial ''alpha beta'' None]
          init_accumulator)
     = Inr 4
   \<and> stable_and_pending
       (run_calls default_config fake_clock_0_then_1600ms
          [AddPartial ''alpha beta'' None, AddPartial ''beta gamma'' None] init_accumulator)
     = Inr ([], [''beta'', ''gamma''])"
  by code_simp

subsection \<open>Snapshot TTL bound\<close>

lemma dropWhile_expired_live:
  assumes "sorted (map expiry_ms xs)"
  shows "list_all (\<lambda>snap. now < expiry_ms snap) (dropWhile (\<lambda>snap. expiry_ms snap \<le> now) xs)"
  using assms
proof (induction xs)
  case Nil
  show ?case by simp
next
  case (Cons x xs)
  then show ?case by (auto simp: list_all_iff)
qed

lemma entry_state_live:
  assumes "sorted (map expiry_ms (awaiting_final s))"
  shows "snapshots_live (call_now clk now_ms s) (entry_state cfg clk now_ms s)"
  using dropWhile_expired_live [OF assms] by (simp add: snapshots_live_def entry_state_awaiting)

lemma force_segment_break_live:
  assumes "0 < awaiting_final_ttl_ms cfg" "snapshots_live now s"
  shows "snapshots_live now (force_segment_break cfg clk (Some now) s)"
  using assms by (simp add: snapshots_live_def force_segment_break_awaiting)

lemma exit_partial_live:
  assumes "0 < awaiting_final_ttl_ms cfg" "snapshots_live now s"
  shows "snapshots_live now (exit_partial cfg clk now s)"
proof -
  have "snapshots_live now (snd (promote_leftmost_ready cfg clk now s))"
    using assms(2) by (simp add: snapshots_live_def)
  then show ?thesis
    using force_segment_break_live [OF assms(1), of now "snd (promote_leftmost_ready cfg clk now s)" clk]
    by (simp add: exit_partial_def split: option.splits)
qed

lemma snapshots_live_subset:
  assumes "snapshots_live now s"
    and "set (map expiry_ms (awaiting_final s')) \<subseteq> set (map expiry_ms (awaiting_final s))"
  shows "snapshots_live now s'"
  using assms by (auto simp: snapshots_live_def list_all_iff)

lemma two_snapshots_example_run:
  "timed_run default_config (fake_clock 0) 0 two_snapshots_calls init_accumulator
     = Some (3000, two_snapshots_example)"
  by code_simp

lemma regressed_example_run:
  "run_calls default_config (fake_clock 0) regressed_calls init_accumulator
     = Inr regressed_example"
  by code_simp

lemma timed_run_reachable:
  assumes "timed_reachable cfg clk t s" "timed_run cfg clk t cs s = Some (t', s')"
  shows "timed_reachable cfg clk t' s'"
  using assms
proof (induction cs arbitrary: t s)
  case Nil
  then show ?case by simp
next
  case (Cons c cs)
  from Cons.prems(2) obtain s1 where le: "t \<le> call_time clk c s"
    and s1: "apply_call cfg clk c s = Inr s1"
    and rest: "timed_run cfg clk (call_time clk c s) cs s1 = Some (t', s')"
    by (auto split: if_splits sum.splits)
  from timed_call [OF Cons.prems(1) le s1] rest show ?case by (rule Cons.IH)
qed

lemma dedup_fst: "fst (deduplicate_before_commit cfg new s) = dedup_filter cfg (stable s) new"
  by (simp add: dedup_filter_def deduplicate_before_commit_def Let_def init_accumulator_def)

lemma dedup_expired_metric [simp]:
  "snapshot_expired_commits (acc_metrics (snd (deduplicate_before_commit cfg new s)))
     = snapshot_expired_commits (acc_metrics s)"
  by (simp add: deduplicate_before_commit_def Let_def)

lemma expire_snapshots_stable:
  "stable (expire_snapshots cfg now s)
     = expired_commit cfg (stable s)
         (takeWhile (\<lambda>snap. expiry_ms snap \<le> now) (awaiting_final s))"
proof (induction cfg now s rule: expire_snapshots.induct)
  case (1 cfg now s)
  show ?case
  proof (cases "awaiting_final s")
    case Nil
    then show ?thesis by (subst expire_snapshots.simps) simp
  next
    case (Cons snap rest)
    show ?thesis
    proof (cases "expiry_ms snap \<le> now")
      case True
      from 1 [OF Cons True] show ?thesis
        by (subst expire_snapshots.simps) (simp add: Cons True Let_def dedup_fst)
    next
      case False
      with Cons show ?thesis by (subst expire_snapshots.simps) simp
    qed
  qed
qed

lemma expire_snapshots_commits:
  "snapshot_expired_commits (acc_metrics (expire_snapshots cfg now s))
     = snapshot_expired_commits (acc_metrics s)
         + (int (length (stable (expire_snapshots cfg now s))) - int (length (stable s)))"
proof (induction cfg now s rule: expire_snapshots.induct)
  case (1 cfg now s)
  show ?case
  proof (cases "awaiting_final s")
    case Nil
    then show ?thesis by (subst (1 2) expire_snapshots.simps) simp
  next
    case (Cons snap rest)
    show ?thesis
    proof (cases "expiry_ms snap \<le> now")
      case True
      from 1 [OF Cons True] show ?thesis
        by (subst (1 2) expire_snapshots.simps) (simp add: Cons True Let_def)
    next
      case False
      with Cons show ?thesis by (subst (1 2) expire_snapshots.simps) simp
    qed
  qed
qed

lemma sorted_takeWhile_filter:
  assumes "sorted (map expiry_ms xs)"
  shows "takeWhile (\<lambda>snap. expiry_ms snap \<le> now) xs = filter (\<lambda>snap. expiry_ms snap \<le> now) xs"
  using assms
proof (induction xs)
  case Nil
  show ?case by simp
next
  case (Cons x xs)
  show ?case
  proof (cases "expiry_ms x \<le> now")
    case True
    with Cons show ?thesis by simp
  next
    case False
    with Cons.prems have "\<forall>y\<in>set xs. \<not> expiry_ms y \<le> now" by auto
    then have "filter (\<lambda>snap. expiry_ms snap \<le> now) xs = []" by (simp add: filter_empty_conv)
    with False show ?thesis by simp
  qed
qed

lemma sorted_dropWhile_filter:
  assumes "sorted (map expiry_ms xs)"
  shows "dropWhile (\<lambda>snap. expiry_ms snap \<le> now) xs = filter (\<lambda>snap. now < expiry_ms snap) xs"
  using assms
proof (induction xs)
  case Nil
  show ?case by simp
next
  case (Cons x xs)
  show ?case
  proof (cases "expiry_ms x \<le> now")
    case True
    with Cons show ?thesis by simp
  next
    case False
    with Cons.prems have "\<forall>y\<in>set xs. now < expiry_ms y" by auto
    then have "filter (\<lambda>snap. now < expiry_ms snap) xs = xs" by (simp add: filter_id_conv)
    with False show ?thesis by simp
  qed
qed

lemma promote_collect_expired_metric [simp]:
  "snapshot_expired_commits (acc_metrics (snd (promote_collect cfg clk batch s)))
     = snapshot_expired_commits (acc_metrics s)"
  by (induction cfg clk batch s rule: promote_collect.induct;
      subst promote_collect.simps; simp split: list.splits)

lemma promote_leftmost_ready_expired_metric [simp]:
  "snapshot_expired_commits (acc_metrics (snd (promote_leftmost_ready cfg clk now s)))
     = snapshot_expired_commits (acc_metrics s)"
  by (simp add: promote_leftmost_ready_def Let_def case_prod_beta)

lemma force_segment_break_expired_metric [simp]:
  "snapshot_expired_commits (acc_metrics (force_segment_break cfg clk now_ms s))
     = snapshot_expired_commits (acc_metrics s)"
  by (simp add: force_segment_break_def Let_def case_prod_beta)

lemma exit_partial_expired_metric [simp]:
  "snapshot_expired_commits (acc_metrics (exit_partial cfg clk now s))
     = snapshot_expired_commits (acc_metrics s)"
  by (simp add: exit_partial_def split: option.splits)

lemma exit_final_expired_metric [simp]:
  "snapshot_expired_commits (acc_metrics (exit_final cfg now fin m s))
     = snapshot_expired_commits (acc_metrics s)"
  by (simp add: exit_final_def Let_def)

lemma rescue_orphans_expired_metric:
  assumes "rescue_orphans cfg i lst lsn os s = Inr r"
  shows "snapshot_expired_commits (acc_metrics (snd r)) = snapshot_expired_commits (acc_metrics s)"
  using assms
  by (auto simp: rescue_orphans_def Let_def case_prod_beta split: if_splits)

lemma rescue_step_expired_metric:
  assumes "rescue_step cfg fin s = Inr r"
  shows "snapshot_expired_commits (acc_metrics (snd r)) = snapshot_expired_commits (acc_metrics s)"
  using assms rescue_orphans_expired_metric
  by (auto simp: rescue_step_def split: option.splits if_splits)

lemma entry_state_stable:
  "stable (entry_state cfg clk now_ms s)
     = expired_commit cfg (stable s)
         (takeWhile (\<lambda>snap. expiry_ms snap \<le> call_now clk now_ms s) (awaiting_final s))"
  by (simp add: entry_state_def expire_snapshots_stable)

lemma entry_state_commits:
  "snapshot_expired_commits (acc_metrics (entry_state cfg clk now_ms s))
     = snapshot_expired_commits (acc_metrics s)
         + (int (length (stable (entry_state cfg clk now_ms s))) - int (length (stable s)))"
  using expire_snapshots_commits
          [of cfg "call_now clk now_ms s"
              "ensure_segment_started (call_now clk now_ms s) (snd (resolve_now clk now_ms s))"]
  by (simp add: entry_state_def)

lemma count_expired_metric [simp]:
  "snapshot_expired_commits (acc_metrics (count_partial s)) = snapshot_expired_commits (acc_metrics s)"
  "snapshot_expired_commits (acc_metrics (count_final s)) = snapshot_expired_commits (acc_metrics s)"
  by (simp_all add: count_partial_def count_final_def)

lemma exit_partial_awaiting:
  "prefix (awaiting_final s) (awaiting_final (exit_partial cfg clk now s))"
  by (simp add: exit_partial_def force_segment_break_awaiting split: option.splits)

lemma add_partial_expiry:
  assumes sorted: "sorted (map expiry_ms (awaiting_final s))"
  shows "\<exists>ev s'. add_partial cfg clk inp now_ms s = Inr (ev, s')
           \<and> prefix (expired_commit cfg (stable s)
                        (filter (\<lambda>snap. expiry_ms snap \<le> call_now clk now_ms s) (awaiting_final s)))
                 (stable s')
           \<and> snapshot_expired_commits (acc_metrics s')
               = snapshot_expired_commits (acc_metrics s)
                 + (int (length (expired_commit cfg (stable s)
                        (filter (\<lambda>snap. expiry_ms snap \<le> call_now clk now_ms s) (awaiting_final s))))
                    - int (length (stable s)))
           \<and> prefix (filter (\<lambda>snap. call_now clk now_ms s < expiry_ms snap) (awaiting_final s))
                 (awaiting_final s')"
proof -
  let ?now = "call_now clk now_ms s"
  let ?e = "entry_state cfg clk now_ms (count_partial s)"
  from add_partial_Inr [of clk inp cfg now_ms s] obtain s6 where
    s6: "align_pending clk (tokenize inp) (record_partial_history cfg (tokenize inp) ?now ?e) = Inr s6"
    and res: "add_partial cfg clk inp now_ms s =
            Inr (build_display_event False (exit_partial cfg clk ?now s6),
                 exit_partial cfg clk ?now s6)"
    by blast
  let ?s' = "exit_partial cfg clk ?now s6"
  have st_e: "stable ?e = expired_commit cfg (stable s)
                (filter (\<lambda>snap. expiry_ms snap \<le> ?now) (awaiting_final s))"
    using entry_state_stable [of cfg clk now_ms "count_partial s"]
    by (simp add: sorted_takeWhile_filter [OF sorted])
  have st6: "stable s6 = stable ?e" using align_pending_fields(1) [OF s6] by simp
  have p: "prefix (stable ?e) (stable ?s')"
    unfolding st6 [symmetric] by (rule exit_partial_stable_prefix)
  have m: "snapshot_expired_commits (acc_metrics ?s')
             = snapshot_expired_commits (acc_metrics s)
               + (int (length (stable ?e)) - int (length (stable s)))"
    using entry_state_commits [of cfg clk now_ms "count_partial s"] align_pending_fields(6) [OF s6]
    by simp
  have "awaiting_final s6 = awaiting_final ?e" using align_pending_fields(2) [OF s6] by simp
  then have aw6: "awaiting_final s6
                    = filter (\<lambda>snap. ?now < expiry_ms snap) (awaiting_final s)"
    by (simp add: entry_state_awaiting sorted_dropWhile_filter [OF sorted])
  have a: "prefix (filter (\<lambda>snap. ?now < expiry_ms snap) (awaiting_final s)) (awaiting_final ?s')"
    unfolding aw6 [symmetric] by (rule exit_partial_awaiting)
  from res p m a show ?thesis unfolding st_e by blast
qed

lemma add_final_expiry:
  assumes sorted: "sorted (map expiry_ms (awaiting_final s))"
  shows "\<exists>ev s'. add_final cfg clk inp now_ms s = Inr (ev, s')
           \<and> prefix (expired_commit cfg (stable s)
                        (filter (\<lambda>snap. expiry_ms snap \<le> call_now clk now_ms s) (awaiting_final s)))
                 (stable s')
           \<and> snapshot_expired_commits (acc_metrics s')
               = snapshot_expired_commits (acc_metrics s)
                 + (int (length (expired_commit cfg (stable s)
                        (filter (\<lambda>snap. expiry_ms snap \<le> call_now clk now_ms s) (awaiting_final s))))
                    - int (length (stable s)))"
proof -
  let ?now = "call_now clk now_ms s"
  let ?e = "entry_state cfg clk now_ms (count_final s)"
  have st_e: "stable ?e = expired_commit cfg (stable s)
                (filter (\<lambda>snap. expiry_ms snap \<le> ?now) (awaiting_final s))"
    using entry_state_stable [of cfg clk now_ms "count_final s"]
    by (simp add: sorted_takeWhile_filter [OF sorted])
  have m_e: "snapshot_expired_commits (acc_metrics ?e)
             = snapshot_expired_commits (acc_metrics s)
               + (int (length (stable ?e)) - int (length (stable s)))"
    using entry_state_commits [of cfg clk now_ms "count_final s"] by simp
  show ?thesis
  proof (cases "tokenize inp = []")
    case True
    then show ?thesis using m_e unfolding st_e [symmetric] by (simp add: add_final_unfold)
  next
    case False
    from rescue_step_total [of cfg "tokenize inp" ?e] obtain r where
      r: "rescue_step cfg (tokenize inp) ?e = Inr r" by blast
    let ?s' = "exit_final cfg ?now (tokenize inp)
                 (longest_suffix_prefix (chosen_context ?e (tokenize inp)) (tokenize inp)) (snd r)"
    have res: "add_final cfg clk inp now_ms s = Inr (build_display_event True ?s', ?s')"
      using False r by (simp add: add_final_unfold)
    have "prefix (stable ?e) (stable (snd r))" using r by (rule rescue_step_stable_prefix)
    moreover have "prefix (stable (snd r)) (stable ?s')" by (rule exit_final_stable_prefix)
    ultimately have p: "prefix (stable ?e) (stable ?s')" by (rule prefix_order.order_trans)
    have m: "snapshot_expired_commits (acc_metrics ?s')
               = snapshot_expired_commits (acc_metrics s)
                 + (int (length (stable ?e)) - int (length (stable s)))"
      using m_e rescue_step_expired_metric [OF r] by simp
    from res p m show ?thesis unfolding st_e by blast
  qed
qed

lemma expiry_inv_later:
  assumes "expiry_inv cfg t s" "t \<le> t'"
  shows "expiry_inv cfg t' s"
  using assms by (auto simp: expiry_inv_def list_all_iff)

lemma expiry_inv_entry:
  assumes "expiry_inv cfg t s"
  shows "expiry_inv cfg t (entry_state cfg clk now_ms s)"
proof -
  from assms have sorted: "sorted (map expiry_ms (awaiting_final s))" by (simp add: expiry_inv_def)
  have aw: "awaiting_final (entry_state cfg clk now_ms s)
              = filter (\<lambda>snap. call_now clk now_ms s < expiry_ms snap) (awaiting_final s)"
    by (simp add: entry_state_awaiting sorted_dropWhile_filter [OF sorted])
  show ?thesis
    using assms unfolding expiry_inv_def aw by (auto simp: list_all_iff intro: sorted_filter)
qed

lemma force_segment_break_awaiting_any:
  "awaiting_final (force_segment_break cfg clk now_ms s)
     = awaiting_final s @
         (if pending_tokens s = [] then []
          else [\<lparr>tokens = pending_tokens s, started_ms = call_now clk now_ms s,
                  expiry_ms = call_now clk now_ms s + awaiting_final_ttl_ms cfg,
                  snap_segment_id = segment_id s\<rparr>])"
  by (simp add: force_segment_break_def snapshot_pending_def call_now_def case_prod_beta Let_def)

lemma expiry_inv_force:
  assumes "expiry_inv cfg t s" "t \<le> call_now clk now_ms s"
  shows "expiry_inv cfg (call_now clk now_ms s) (force_segment_break cfg clk now_ms s)"
  using assms
  by (auto simp: expiry_inv_def force_segment_break_awaiting_any list_all_iff sorted_append)

lemma call_now_Some [simp]: "call_now clk (Some n) s = n"
  by (simp add: call_now_def)

lemma expiry_inv_exit_partial:
  assumes "expiry_inv cfg t s" "t \<le> now"
  shows "expiry_inv cfg now (exit_partial cfg clk now s)"
proof -
  let ?p = "snd (promote_leftmost_ready cfg clk now s)"
  have p: "expiry_inv cfg t ?p" using assms(1) by (simp add: expiry_inv_def)
  have "expiry_inv cfg now (force_segment_break cfg clk (Some now) ?p)"
    using expiry_inv_force [OF p, of clk "Some now"] assms(2) by simp
  moreover have "expiry_inv cfg now ?p" using p assms(2) by (rule expiry_inv_later)
  ultimately show ?thesis by (simp add: exit_partial_def split: option.splits)
qed

lemma map_expiry_update:
  assumes "i < length xs" "expiry_ms x = expiry_ms (xs ! i)"
  shows "map expiry_ms (xs[i := x]) = map expiry_ms xs"
proof -
  have "map expiry_ms (xs[i := x]) = (map expiry_ms xs)[i := expiry_ms (xs ! i)]"
    using assms by (simp add: map_update)
  also have "\<dots> = map expiry_ms xs"
    using assms by (simp add: list_update_same_conv)
  finally show ?thesis .
qed

lemma expiry_inv_rescue_orphans:
  assumes r: "rescue_orphans cfg i lst lsn os s = Inr r" and inv: "expiry_inv cfg t s"
  shows "expiry_inv cfg t (snd r)"
proof -
  from r have i: "i < length (awaiting_final s)"
    by (simp add: rescue_orphans_def split: if_splits)
  from rescue_orphans_awaiting [OF r] obtain x where
    x: "expiry_ms x = expiry_ms (awaiting_final s ! i)"
    and aw: "awaiting_final (snd r) = (awaiting_final s)[i := x]
                \<or> awaiting_final (snd r) = remove1 x ((awaiting_final s)[i := x])"
    by blast
  let ?u = "(awaiting_final s)[i := x]"
  have u: "map expiry_ms ?u = map expiry_ms (awaiting_final s)"
    using i x by (rule map_expiry_update)
  have su: "sorted (map expiry_ms ?u)" using inv by (simp add: expiry_inv_def u)
  have bu: "list_all (\<lambda>snap. expiry_ms snap \<le> t + awaiting_final_ttl_ms cfg) ?u"
  proof -
    have "\<forall>e\<in>set (map expiry_ms ?u). e \<le> t + awaiting_final_ttl_ms cfg"
      unfolding u using inv by (auto simp: expiry_inv_def list_all_iff)
    then show ?thesis by (simp add: list_all_iff)
  qed
  from aw show ?thesis
  proof
    assume "awaiting_final (snd r) = ?u"
    with su bu show ?thesis by (simp add: expiry_inv_def)
  next
    assume a: "awaiting_final (snd r) = remove1 x ?u"
    have "sorted (map expiry_ms (remove1 x ?u))" using su by (rule sorted_map_remove1)
    moreover have "list_all (\<lambda>snap. expiry_ms snap \<le> t + awaiting_final_ttl_ms cfg) (remove1 x ?u)"
      using bu set_remove1_subset [of x ?u] by (auto simp: list_all_iff)
    ultimately show ?thesis by (simp add: expiry_inv_def a)
  qed
qed

lemma expiry_inv_rescue_step:
  assumes "rescue_step cfg fin s = Inr r" "expiry_inv cfg t s"
  shows "expiry_inv cfg t (snd r)"
  using assms expiry_inv_rescue_orphans
  by (auto simp: rescue_step_def split: option.splits if_splits)

lemma expiry_inv_add_partial:
  assumes inv: "expiry_inv cfg t s" and le: "t \<le> call_now clk now_ms s"
    and res: "add_partial cfg clk inp now_ms s = Inr (ev, s')"
  shows "expiry_inv cfg (call_now clk now_ms s) s'"
proof -
  let ?now = "call_now clk now_ms s"
  let ?e = "entry_state cfg clk now_ms (count_partial s)"
  from add_partial_Inr [of clk inp cfg now_ms s] res obtain s6 where
    s6: "align_pending clk (tokenize inp) (record_partial_history cfg (tokenize inp) ?now ?e) = Inr s6"
    and s': "s' = exit_partial cfg clk ?now s6"
    by auto
  have "expiry_inv cfg t (count_partial s)" using inv by (simp add: expiry_inv_def)
  then have "expiry_inv cfg t ?e" by (rule expiry_inv_entry)
  moreover have "awaiting_final s6 = awaiting_final ?e" using align_pending_fields(2) [OF s6] by simp
  ultimately have "expiry_inv cfg t s6" by (simp add: expiry_inv_def)
  then show ?thesis unfolding s' using le by (rule expiry_inv_exit_partial)
qed

lemma expiry_inv_add_final:
  assumes inv: "expiry_inv cfg t s" and le: "t \<le> call_now clk now_ms s"
    and res: "add_final cfg clk inp now_ms s = Inr (ev, s')"
  shows "expiry_inv cfg (call_now clk now_ms s) s'"
proof -
  let ?now = "call_now clk now_ms s"
  let ?e = "entry_state cfg clk now_ms (count_final s)"
  have "expiry_inv cfg t (count_final s)" using inv by (simp add: expiry_inv_def)
  then have e: "expiry_inv cfg t ?e" by (rule expiry_inv_entry)
  show ?thesis
  proof (cases "tokenize inp = []")
    case True
    with res have "s' = force_segment_break cfg clk (Some ?now) ?e"
      by (simp add: add_final_unfold)
    with expiry_inv_force [OF e, of clk "Some ?now"] le show ?thesis by simp
  next
    case False
    with res obtain r where r: "rescue_step cfg (tokenize inp) ?e = Inr r"
      and s': "s' = exit_final cfg ?now (tokenize inp)
                 (longest_suffix_prefix (chosen_context ?e (tokenize inp)) (tokenize inp)) (snd r)"
      by (auto simp: add_final_unfold split: sum.splits)
    have "expiry_inv cfg t (snd r)" using r e by (rule expiry_inv_rescue_step)
    then have "expiry_inv cfg t s'" unfolding s' by (simp add: expiry_inv_def)
    then show ?thesis using le by (rule expiry_inv_later)
  qed
qed

lemma expiry_inv_apply_call:
  assumes inv: "expiry_inv cfg t s" and le: "t \<le> call_time clk c s"
    and res: "apply_call cfg clk c s = Inr s'"
  shows "expiry_inv cfg (call_time clk c s) s'"
proof (cases c)
  case (AddPartial inp now_ms)
  with res obtain ev where "add_partial cfg clk inp now_ms s = Inr (ev, s')"
    by (cases "add_partial cfg clk inp now_ms s") auto
  with expiry_inv_add_partial [OF inv, of clk now_ms inp ev s'] le show ?thesis
    by (simp add: AddPartial call_time_def)
next
  case (AddFinal inp now_ms)
  with res obtain ev where "add_final cfg clk inp now_ms s = Inr (ev, s')"
    by (cases "add_final cfg clk inp now_ms s") auto
  with expiry_inv_add_final [OF inv, of clk now_ms inp ev s'] le show ?thesis
    by (simp add: AddFinal call_time_def)
next
  case (ForceSegmentBreak now_ms)
  with res expiry_inv_force [OF inv, of clk now_ms] le show ?thesis
    by (auto simp: call_time_def)
qed

lemma timed_reachable_inv:
  assumes "timed_reachable cfg clk t s"
  shows "expiry_inv cfg t s"
  using assms
proof (induction rule: timed_reachable.induct)
  case (timed_init t)
  show ?case by (simp add: expiry_inv_def init_accumulator_def)
next
  case (timed_call t s c s')
  from expiry_inv_apply_call [OF timed_call.IH timed_call.hyps(2,3)] show ?case .
next
  case (timed_reset t s)
  show ?case by (simp add: expiry_inv_def reset_def)
qed

lemma add_partial_live:
  assumes ttl: "0 < awaiting_final_ttl_ms cfg"
    and sorted: "sorted (map expiry_ms (awaiting_final s))"
    and res: "add_partial cfg clk inp now_ms s = Inr (ev, s')"
  shows "snapshots_live (call_now clk now_ms s) s'"
proof -
  let ?now = "call_now clk now_ms s"
  let ?e = "entry_state cfg clk now_ms (count_partial s)"
  from add_partial_Inr [of clk inp cfg now_ms s] res obtain s6 where
    s6: "align_pending clk (tokenize inp) (record_partial_history cfg (tokenize inp) ?now ?e) = Inr s6"
    and s': "s' = exit_partial cfg clk ?now s6"
    by auto
  have "snapshots_live ?now ?e"
    using entry_state_live [of "count_partial s" clk now_ms cfg] sorted by simp
  moreover have "awaiting_final s6 = awaiting_final ?e"
    using align_pending_fields(2) [OF s6] by simp
  ultimately have "snapshots_live ?now s6" by (simp add: snapshots_live_def)
  then show ?thesis unfolding s' by (rule exit_partial_live [OF ttl])
qed

lemma add_final_live:
  assumes ttl: "0 < awaiting_final_ttl_ms cfg"
    and sorted: "sorted (map expiry_ms (awaiting_final s))"
    and res: "add_final cfg clk inp now_ms s = Inr (ev, s')"
  shows "snapshots_live (call_now clk now_ms s) s'"
proof -
  let ?now = "call_now clk now_ms s"
  let ?e = "entry_state cfg clk now_ms (count_final s)"
  have e: "snapshots_live ?now ?e"
    using entry_state_live [of "count_final s" clk now_ms cfg] sorted by simp
  show ?thesis
  proof (cases "tokenize inp = []")
    case True
    with res have "s' = force_segment_break cfg clk (Some ?now) ?e"
      by (simp add: add_final_unfold)
    with force_segment_break_live [OF ttl e] show ?thesis by simp
  next
    case False
    with res obtain r where r: "rescue_step cfg (tokenize inp) ?e = Inr r"
      and s': "s' = exit_final cfg ?now (tokenize inp)
                 (longest_suffix_prefix (chosen_context ?e (tokenize inp)) (tokenize inp)) (snd r)"
      by (auto simp: add_final_unfold split: sum.splits)
    have "snapshots_live ?now (snd r)"
      using e rescue_step_expiry [OF r] by (rule snapshots_live_subset)
    then show ?thesis unfolding s' by (simp add: snapshots_live_def)
  qed
qed

text \<open>
  Claim C3, amended. Take a session whose calls are made at non-decreasing logical times,
  the last at \<open>t\<close>, with a positive snapshot TTL, and call \<open>add_partial\<close> or
  \<open>add_final\<close> at \<open>now \<ge> t\<close>. The call returns. Every snapshot that had
  \<open>expiry_ms \<le> now\<close> has been auto-committed before anything else is appended to
  \<open>stable\<close>: oldest first, its token texts passed through the deduplicator and the
  survivors appended, with \<open>snapshot_expired_commits\<close> increased by the number of tokens
  appended. Every snapshot left in \<open>awaiting_final\<close> expires strictly after \<open>now\<close>
  (\<open>add_partial\<close> keeps exactly the unexpired ones, followed by the snapshot of a segment
  timeout if there is one), and the state returned is again a state of such a session.
  \<open>force_segment_break\<close> does not expire snapshots: it keeps every snapshot it finds.
\<close>

theorem snapshots_live_after_partial_and_final:
  assumes ttl: "0 < awaiting_final_ttl_ms cfg"
    and reach: "timed_reachable cfg clk t s"
    and later: "t \<le> call_now clk now_ms s"
  shows "(\<exists>ev s'. add_partial cfg clk inp now_ms s = Inr (ev, s')
            \<and> snapshots_live (call_now clk now_ms s) s'
            \<and> prefix (expired_commit cfg (stable s)
                         (filter (\<lambda>snap. expiry_ms snap \<le> call_now clk now_ms s) (awaiting_final s)))
                  (stable s')
            \<and> snapshot_expired_commits (acc_metrics s')
                = snapshot_expired_commits (acc_metrics s)
                  + (int (length (expired_commit cfg (stable s)
                         (filter (\<lambda>snap. expiry_ms snap \<le> call_now clk now_ms s) (awaiting_final s))))
                     - int (length (stable s)))
            \<and> prefix (filter (\<lambda>snap. call_now clk now_ms s < expiry_ms snap) (awaiting_final s))
                  (awaiting_final s')
            \<and> timed_reachable cfg clk (call_now clk now_ms s) s')
       \<and> (\<exists>ev s'. add_final cfg clk inp now_ms s = Inr (ev, s')
            \<and> snapshots_live (call_now clk now_ms s) s'
            \<and> prefix (expired_commit cfg (stable s)
                         (filter (\<lambda>snap. expiry_ms snap \<le> call_now clk now_ms s) (awaiting_final s)))
                  (stable s')
            \<and> snapshot_expired_commits (acc_metrics s')
                = snapshot_expired_commits (acc_metrics s)
                  + (int (length (expired_commit cfg (stable s)
                         (filter (\<lambda>snap. expiry_ms snap \<le> call_now clk now_ms s) (awaiting_final s))))
                     - int (length (stable s)))
            \<and> timed_reachable cfg clk (call_now clk now_ms s) s')
       \<and> set (awaiting_final s) \<subseteq> set (awaiting_final (force_segment_break cfg clk now_ms s))"
proof (intro conjI)
  have sorted: "sorted (map expiry_ms (awaiting_final s))"
    using timed_reachable_inv [OF reach] by (simp add: expiry_inv_def)
  let ?now = "call_now clk now_ms s"
  let ?commit = "expired_commit cfg (stable s)
                   (filter (\<lambda>snap. expiry_ms snap \<le> ?now) (awaiting_final s))"
  show "\<exists>ev s'. add_partial cfg clk inp now_ms s = Inr (ev, s')
            \<and> snapshots_live ?now s'
            \<and> prefix ?commit (stable s')
            \<and> snapshot_expired_commits (acc_metrics s')
                = snapshot_expired_commits (acc_metrics s)
                  + (int (length ?commit) - int (length (stable s)))
            \<and> prefix (filter (\<lambda>snap. ?now < expiry_ms snap) (awaiting_final s))
                  (awaiting_final s')
            \<and> timed_reachable cfg clk ?now s'"
  proof -
    from add_partial_expiry [OF sorted, of cfg clk inp now_ms] obtain ev s' where
      res: "add_partial cfg clk inp now_ms s = Inr (ev, s')"
      and facts: "prefix ?commit (stable s')"
        "snapshot_expired_commits (acc_metrics s')
                = snapshot_expired_commits (acc_metrics s)
                  + (int (length ?commit) - int (length (stable s)))"
        "prefix (filter (\<lambda>snap. ?now < expiry_ms snap) (awaiting_final s)) (awaiting_final s')"
      by blast
    have live: "snapshots_live ?now s'" using ttl sorted res by (rule add_partial_live)
    have "apply_call cfg clk (AddPartial inp now_ms) s = Inr s'" using res by simp
    from timed_call [OF reach _ this] later
    have "timed_reachable cfg clk ?now s'" by (simp add: call_time_def)
    with res facts live show ?thesis by blast
  qed
  show "\<exists>ev s'. add_final cfg clk inp now_ms s = Inr (ev, s')
            \<and> snapshots_live ?now s'
            \<and> prefix ?commit (stable s')
            \<and> snapshot_expired_commits (acc_metrics s')
                = snapshot_expired_commits (acc_metrics s)
                  + (int (length ?commit) - int (length (stable s)))
            \<and> timed_reachable cfg clk ?now s'"
  proof -
    from add_final_expiry [OF sorted, of cfg clk inp now_ms] obtain ev s' where
      res: "add_final cfg clk inp now_ms s = Inr (ev, s')"
      and facts: "prefix ?commit (stable s')"
        "snapshot_expired_commits (acc_metrics s')
                = snapshot_expired_commits (acc_metrics s)
                  + (int (length ?commit) - int (length (stable s)))"
      by blast
    have live: "snapshots_live ?now s'" using ttl sorted res by (rule add_final_live)
    have "apply_call cfg clk (AddFinal inp now_ms) s = Inr s'" using res by simp
    from timed_call [OF reach _ this] later
    have "timed_reachable cfg clk ?now s'" by (simp add: call_time_def)
    with res facts live show ?thesis by blast
  qed
  show "set (awaiting_final s) \<subseteq> set (awaiting_final (force_segment_break cfg clk now_ms s))"
    by (simp add: force_segment_break_awaiting_any)
qed

theorem snapshots_live_after_partial_and_final_witness:
  "0 < awaiting_final_ttl_ms default_config
   \<and> timed_reachable default_config (fake_clock 0) 3000 two_snapshots_example
   \<and> 3000 \<le> call_now (fake_clock 0) (Some 6000) two_snapshots_example
   \<and> map expiry_ms (awaiting_final two_snapshots_example) = [5000, 8000]
   \<and> (\<exists>ev s'. add_partial default_config (fake_clock 0) ''e'' (Some 6000) two_snapshots_example
                 = Inr (ev, s')
          \<and> snapshots_live 6000 s'
          \<and> prefix [''a'', ''b''] (stable s')
          \<and> snapshot_expired_commits (acc_metrics s') = 2
          \<and> awaiting_final s' \<noteq> [])
   \<and> (\<exists>ev s'. add_final default_config (fake_clock 0) ''e'' (Some 6000) two_snapshots_example
                 = Inr (ev, s')
          \<and> snapshots_live 6000 s'
          \<and> prefix [''a'', ''b''] (stable s')
          \<and> snapshot_expired_commits (acc_metrics s') = 2)"
proof -
  have ttl: "0 < awaiting_final_ttl_ms default_config" by (simp add: default_config_def)
  have reach: "timed_reachable default_config (fake_clock 0) 3000 two_snapshots_example"
    using timed_init two_snapshots_example_run by (rule timed_run_reachable)
  have later: "3000 \<le> call_now (fake_clock 0) (Some 6000) two_snapshots_example" by simp
  have ex: "map expiry_ms (awaiting_final two_snapshots_example) = [5000, 8000]"
    by (simp add: two_snapshots_example_def)
  have commit: "expired_commit default_config (stable two_snapshots_example)
                  (filter (\<lambda>snap. expiry_ms snap \<le> 6000) (awaiting_final two_snapshots_example))
                = [''a'', ''b'']"
    by (simp add: two_snapshots_example_def dedup_filter_def deduplicate_before_commit_def
          init_accumulator_def)
  have m: "snapshot_expired_commits (acc_metrics two_snapshots_example) = 0"
      "stable two_snapshots_example = []"
    by (simp_all add: two_snapshots_example_def zero_metrics_def)
  have commit0: "expired_commit default_config []
                  (filter (\<lambda>snap. expiry_ms snap \<le> 6000) (awaiting_final two_snapshots_example))
                = [''a'', ''b'']"
    using commit m by simp
  have keep: "filter (\<lambda>snap. 6000 < expiry_ms snap) (awaiting_final two_snapshots_example) \<noteq> []"
    by (simp add: two_snapshots_example_def)
  from snapshots_live_after_partial_and_final [OF ttl reach later, of "''e''"]
  have "(\<exists>ev s'. add_partial default_config (fake_clock 0) ''e'' (Some 6000) two_snapshots_example
                 = Inr (ev, s')
          \<and> snapshots_live 6000 s'
          \<and> prefix [''a'', ''b''] (stable s')
          \<and> snapshot_expired_commits (acc_metrics s') = 2
          \<and> prefix (filter (\<lambda>snap. 6000 < expiry_ms snap) (awaiting_final two_snapshots_example))
                (awaiting_final s'))
       \<and> (\<exists>ev s'. add_final default_config (fake_clock 0) ''e'' (Some 6000) two_snapshots_example
                 = Inr (ev, s')
          \<and> snapshots_live 6000 s'
          \<and> prefix [''a'', ''b''] (stable s')
          \<and> snapshot_expired_commits (acc_metrics s') = 2)"
    unfolding call_now_Some m commit0 by auto
  moreover have "ys \<noteq> []" if "prefix xs ys" "xs \<noteq> []" for xs ys :: "snapshot list"
    using that by auto
  ultimately show ?thesis using ttl reach later ex keep by blast
qed

text \<open>
  The claim as first stated fails in three ways, each in a session that meets the other
  conditions of the amended claim. In the session of two segment breaks at \<open>0\<close> and
  \<open>3000\<close> with the default TTL, \<open>force_segment_break\<close> at \<open>now = 6000\<close> leaves the
  snapshot that expired at \<open>5000\<close> in \<open>awaiting_final\<close>. With a TTL of zero, the snapshot
  that an empty final makes of one pending token at \<open>now = 0\<close> expires at \<open>0\<close>. After
  call times that went backwards (\<open>1000\<close>, then \<open>0\<close>), \<open>add_partial\<close> at
  \<open>now = 5500\<close> stops its expiry loop at the first snapshot, which expires at \<open>6000\<close>,
  and leaves the one behind it, which expired at \<open>5000\<close>.
\<close>

theorem snapshot_ttl_bound_fails:
  "timed_run default_config (fake_clock 0) 0 two_snapshots_calls init_accumulator
     = Some (3000, two_snapshots_example)
   \<and> \<not> snapshots_live 6000
         (force_segment_break default_config (fake_clock 0) (Some 6000) two_snapshots_example)
   \<and> timed_run zero_ttl_config (fake_clock 0) 0 [AddPartial ''a'' None] init_accumulator
       = Some (0, aged_example)
   \<and> live_after 0 (add_final zero_ttl_config (fake_clock 0) [] (Some 0) aged_example) = Inr False
   \<and> run_calls default_config (fake_clock 0) regressed_calls init_accumulator = Inr regressed_example
   \<and> live_after 5500 (add_partial default_config (fake_clock 0) ''c'' (Some 5500) regressed_example)
       = Inr False"
proof -
  have "\<not> snapshots_live 6000
           (force_segment_break default_config (fake_clock 0) (Some 6000) two_snapshots_example)"
    by code_simp
  moreover have "timed_run zero_ttl_config (fake_clock 0) 0 [AddPartial ''a'' None] init_accumulator
                   = Some (0, aged_example)"
    by code_simp
  moreover have "live_after 0 (add_final zero_ttl_config (fake_clock 0) [] (Some 0) aged_example)
                   = Inr False"
    by code_simp
  moreover have "live_after 5500
                   (add_partial default_config (fake_clock 0) ''c'' (Some 5500) regressed_example)
                 = Inr False"
    by code_simp
  ultimately show ?thesis using regressed_example_run two_snapshots_example_run by simp
qed

subsection \<open>Lemmas on the pending tokens\<close>

lemma py_int_mono:
  assumes "x \<le> y"
  shows "py_int x \<le> py_int y"
proof (cases "0 \<le> x")
  case True
  with assms have "0 \<le> y" by simp
  with True assms show ?thesis by (simp add: py_int_def floor_mono)
next
  case False
  show ?thesis
  proof (cases "0 \<le> y")
    case True
    have "\<lceil>x\<rceil> \<le> 0" using False by (simp add: ceiling_le_iff)
    moreover have "0 \<le> \<lfloor>y\<rfloor>" using True by simp
    ultimately have "\<lceil>x\<rceil> \<le> \<lfloor>y\<rfloor>" by (rule order_trans)
    then show ?thesis using False True by (simp add: py_int_def)
  next
    case y: False
    with False assms show ?thesis by (simp add: py_int_def ceiling_mono)
  qed
qed

lemma confirm_tokens_map:
  "map first_seen_time (confirm_tokens clk n ts) = map first_seen_time ts"
  "map confirmation_count (confirm_tokens clk n ts) = map (\<lambda>t. confirmation_count t + 1) ts"
  "length (confirm_tokens clk n ts) = length ts"
  by (induction ts arbitrary: n) simp_all

lemma confirm_tokens_set:
  assumes "t' \<in> set (confirm_tokens clk n ts)"
  shows "\<exists>t\<in>set ts. first_seen_time t' = first_seen_time t
           \<and> confirmation_count t' = confirmation_count t + 1"
  using assms by (induction ts arbitrary: n) auto

lemma confirm_tokens_ordered:
  assumes "pending_ordered ts"
  shows "pending_ordered (confirm_tokens clk n ts)"
  using assms unfolding pending_ordered_def
proof (induction ts arbitrary: n)
  case Nil
  show ?case by simp
next
  case (Cons t ts)
  then show ?case by (auto dest!: confirm_tokens_set)
qed

lemma fresh_tokens_set:
  assumes "t \<in> set (fresh_tokens clk n ws)"
  shows "confirmation_count t = 1 \<and> (\<exists>j < length ws. first_seen_time t = clk (n + j))"
  using assms
proof (induction ws arbitrary: n)
  case Nil
  then show ?case by simp
next
  case (Cons w ws)
  from Cons.prems have "t = \<lparr>tok_text = w, confirmation_count = 1, first_seen_time = clk n,
                             last_seen_time = clk n\<rparr> \<or> t \<in> set (fresh_tokens clk (Suc n) ws)"
    by simp
  then show ?case
  proof
    assume "t = \<lparr>tok_text = w, confirmation_count = 1, first_seen_time = clk n,
                  last_seen_time = clk n\<rparr>"
    then show ?thesis by auto
  next
    assume "t \<in> set (fresh_tokens clk (Suc n) ws)"
    from Cons.IH [OF this] obtain j where "confirmation_count t = 1" "j < length ws"
      "first_seen_time t = clk (Suc n + j)" by blast
    then have "confirmation_count t = 1 \<and> Suc j < length (w # ws)
               \<and> first_seen_time t = clk (n + Suc j)" by simp
    then show ?thesis by blast
  qed
qed

lemma fresh_tokens_ordered:
  assumes "mono clk"
  shows "pending_ordered (fresh_tokens clk n ws)"
  unfolding pending_ordered_def
proof (induction ws arbitrary: n)
  case Nil
  show ?case by simp
next
  case (Cons w ws)
  have "clk n \<le> first_seen_time t \<and> confirmation_count t \<le> 1"
    if "t \<in> set (fresh_tokens clk (Suc n) ws)" for t
  proof -
    from fresh_tokens_set [OF that] obtain j where "confirmation_count t = 1"
      "first_seen_time t = clk (Suc n + j)" by blast
    moreover have "clk n \<le> clk (Suc n + j)" using assms by (simp add: monoD)
    ultimately show ?thesis by simp
  qed
  with Cons.IH [of "Suc n"] show ?case by simp
qed


lemma pending_inv_mono:
  assumes "mono clk" "n \<le> n'" "pending_inv clk n ts"
  shows "pending_inv clk n' ts"
proof -
  have "clk n \<le> clk n'" using assms(1,2) by (rule monoD)
  with assms(3) show ?thesis
    by (auto simp: pending_inv_def list_all_iff)
qed

lemma pending_inv_take:
  assumes "pending_inv clk n ts"
  shows "pending_inv clk n (take l ts)"
  using assms
  by (auto simp: pending_inv_def pending_ordered_def list_all_iff sorted_wrt_take
           dest: in_set_takeD)

lemma pending_inv_drop:
  assumes "pending_inv clk n ts"
  shows "pending_inv clk n (drop l ts)"
  using assms
  by (auto simp: pending_inv_def pending_ordered_def list_all_iff sorted_wrt_drop
           dest: in_set_dropD)

lemma pending_inv_Nil [simp]: "pending_inv clk n []"
  by (simp add: pending_inv_def pending_ordered_def)

lemma align_pending_inv:
  assumes mono: "mono clk"
    and inv: "pending_inv clk (time_calls s) (pending_tokens s)"
    and res: "align_pending clk cur s = Inr s'"
  shows "pending_inv clk (time_calls s') (pending_tokens s')"
proof -
  define l where "l = lcp_len (map tok_text (pending_tokens s)) cur"
  define n where "n = time_calls s"
  define old where "old = confirm_tokens clk n (take l (pending_tokens s))"
  define new where "new = fresh_tokens clk (n + l) (drop l cur)"
  have l: "l \<le> length (pending_tokens s)"
    unfolding l_def using lcp_len_le [of "map tok_text (pending_tokens s)" cur] by simp
  have len_old: "length old = l" using l by (simp add: old_def confirm_tokens_map)
  from res l have pend: "pending_tokens s' = old @ new"
    and tc: "time_calls s' = n + l + length (drop l cur)"
    by (auto simp: align_pending_def Let_def l_def [symmetric] n_def [symmetric]
          old_def [symmetric] new_def [symmetric] len_old)
  have inv_take: "pending_inv clk n (take l (pending_tokens s))"
    using inv unfolding n_def by (rule pending_inv_take)
  have old_ord: "pending_ordered old"
    unfolding old_def using inv_take by (simp add: pending_inv_def confirm_tokens_ordered)
  have old_set: "1 \<le> confirmation_count t \<and> first_seen_time t \<le> clk n" if "t \<in> set old" for t
  proof -
    from confirm_tokens_set [OF that [unfolded old_def]] obtain t0 where
      "t0 \<in> set (take l (pending_tokens s))" "first_seen_time t = first_seen_time t0"
      "confirmation_count t = confirmation_count t0 + 1" by blast
    with inv_take show ?thesis by (auto simp: pending_inv_def list_all_iff)
  qed
  have new_ord: "pending_ordered new" unfolding new_def using mono by (rule fresh_tokens_ordered)
  have new_set: "confirmation_count t = 1 \<and> clk n \<le> first_seen_time t
                 \<and> first_seen_time t \<le> clk (time_calls s')" if "t \<in> set new" for t
  proof -
    from fresh_tokens_set [OF that [unfolded new_def]] obtain j where
      j: "confirmation_count t = 1" "j < length (drop l cur)" "first_seen_time t = clk (n + l + j)"
      by blast
    have "clk n \<le> clk (n + l + j)" using mono by (simp add: monoD)
    moreover have "clk (n + l + j) \<le> clk (time_calls s')"
      using mono j(2) by (simp add: monoD tc)
    ultimately show ?thesis using j by simp
  qed
  have "pending_ordered (old @ new)"
    using old_ord new_ord old_set new_set
    by (fastforce simp: pending_ordered_def sorted_wrt_append)
  moreover have "1 \<le> confirmation_count t \<and> first_seen_time t \<le> clk (time_calls s')"
    if "t \<in> set (old @ new)" for t
  proof -
    have "clk n \<le> clk (time_calls s')" using mono by (simp add: monoD tc)
    with that old_set new_set show ?thesis by fastforce
  qed
  ultimately show ?thesis by (simp add: pending_inv_def pend list_all_iff)
qed

lemma promote_collect_Nil:
  "pending_tokens s = [] \<Longrightarrow> promote_collect cfg clk batch s = (batch, s)"
  by (subst promote_collect.simps) simp

lemma promote_collect_K:
  assumes "pending_tokens s = tok # rest" "K cfg \<le> confirmation_count tok"
  shows "promote_collect cfg clk batch s
         = promote_collect cfg clk (batch @ [tok_text tok])
             (s\<lparr>pending_tokens := rest,
                acc_metrics := (acc_metrics s)
                  \<lparr>tokens_committed_by_stability :=
                     tokens_committed_by_stability (acc_metrics s) + 1\<rparr>,
                time_calls := Suc (time_calls s)\<rparr>)"
  using assms by (subst promote_collect.simps) simp

lemma promote_collect_T:
  assumes "pending_tokens s = tok # rest" "\<not> K cfg \<le> confirmation_count tok"
    "T_ms cfg \<le> py_int ((clk (time_calls s) - first_seen_time tok) * 1000)"
  shows "promote_collect cfg clk batch s
         = promote_collect cfg clk (batch @ [tok_text tok])
             (s\<lparr>pending_tokens := rest,
                acc_metrics := (acc_metrics s)
                  \<lparr>tokens_committed_by_flush :=
                     tokens_committed_by_flush (acc_metrics s) + 1\<rparr>,
                time_calls := Suc (time_calls s)\<rparr>)"
  using assms by (subst promote_collect.simps) simp

lemma promote_collect_stop:
  assumes "pending_tokens s = tok # rest" "\<not> K cfg \<le> confirmation_count tok"
    "\<not> T_ms cfg \<le> py_int ((clk (time_calls s) - first_seen_time tok) * 1000)"
  shows "promote_collect cfg clk batch s = (batch, s\<lparr>time_calls := Suc (time_calls s)\<rparr>)"
  using assms by (subst promote_collect.simps) simp

lemma promote_collect_result:
  "time_calls s \<le> time_calls (snd (promote_collect cfg clk batch s))
   \<and> suffix (pending_tokens (snd (promote_collect cfg clk batch s))) (pending_tokens s)
   \<and> front_fresh cfg clk (snd (promote_collect cfg clk batch s))"
proof (induction cfg clk batch s rule: promote_collect.induct)
  case (1 cfg clk batch s)
  show ?case
  proof (cases "pending_tokens s")
    case Nil
    then show ?thesis by (simp add: promote_collect_Nil front_fresh_def)
  next
    case (Cons tok rest)
    show ?thesis
    proof (cases "confirmation_count tok \<ge> K cfg")
      case True
      from 1(1) [OF Cons True] show ?thesis
        unfolding promote_collect_K [OF Cons True] by (simp add: Cons suffix_Cons)
    next
      case noK: False
      show ?thesis
      proof (cases "py_int ((clk (time_calls s) - first_seen_time tok) * 1000) \<ge> T_ms cfg")
        case True
        from 1(2) [OF Cons noK True] show ?thesis
          unfolding promote_collect_T [where clk = clk, OF Cons noK True] by (simp add: Cons suffix_Cons)
      next
        case False
        show ?thesis
          unfolding promote_collect_stop [where clk = clk, OF Cons noK False]
          using noK False by (simp add: Cons front_fresh_def)
      qed
    qed
  qed
qed

lemma promote_leftmost_ready_pending [simp]:
  "pending_tokens (snd (promote_leftmost_ready cfg clk now s))
     = pending_tokens (snd (promote_collect cfg clk [] s))"
  "time_calls (snd (promote_leftmost_ready cfg clk now s))
     = time_calls (snd (promote_collect cfg clk [] s))"
  by (simp_all add: promote_leftmost_ready_def Let_def case_prod_beta)


lemma pending_inv_suffix:
  assumes "mono clk" "n \<le> n'" "suffix ts' ts" "pending_inv clk n ts"
  shows "pending_inv clk n' ts'"
proof -
  from assms(3) obtain zs where "ts = zs @ ts'" by (auto simp: suffix_def)
  then have "ts' = drop (length zs) ts" by simp
  with pending_inv_drop [OF assms(4), of "length zs"] have "pending_inv clk n ts'" by simp
  with assms(1,2) show ?thesis by (rule pending_inv_mono)
qed


lemma front_fresh_ordered:
  assumes "front_fresh cfg clk s" "pending_ordered (pending_tokens s)"
  shows "pending_fresh cfg (clk (time_calls s - 1)) s"
proof (cases "pending_tokens s")
  case Nil
  then show ?thesis by (simp add: pending_fresh_def)
next
  case (Cons tok rest)
  let ?c = "clk (time_calls s - 1)"
  from assms(1) Cons have front: "confirmation_count tok < K cfg"
    "py_int ((?c - first_seen_time tok) * 1000) < T_ms cfg"
    by (simp_all add: front_fresh_def)
  have "confirmation_count t < K cfg \<and> py_int ((?c - first_seen_time t) * 1000) < T_ms cfg"
    if "t \<in> set rest" for t
  proof -
    from assms(2) Cons that have le: "confirmation_count t \<le> confirmation_count tok"
      "first_seen_time tok \<le> first_seen_time t"
      by (auto simp: pending_ordered_def)
    from le(2) have "(?c - first_seen_time t) * 1000 \<le> (?c - first_seen_time tok) * 1000"
      by simp
    then have "py_int ((?c - first_seen_time t) * 1000) \<le> py_int ((?c - first_seen_time tok) * 1000)"
      by (rule py_int_mono)
    with front le(1) show ?thesis by simp
  qed
  with front Cons show ?thesis by (simp add: pending_fresh_def list_all_iff)
qed


lemma exit_partial_pending:
  "pending_tokens (exit_partial cfg clk now s) = []
   \<or> (pending_tokens (exit_partial cfg clk now s) = pending_tokens (snd (promote_collect cfg clk [] s))
      \<and> time_calls (exit_partial cfg clk now s) = time_calls (snd (promote_collect cfg clk [] s)))"
  by (simp add: exit_partial_def split: option.splits)


lemma exit_partial_time_calls:
  "time_calls (exit_partial cfg clk now s) = time_calls (snd (promote_collect cfg clk [] s))"
  by (simp add: exit_partial_def force_segment_break_def split: option.splits)


text \<open>The pending tokens and the clock position just before the alignment of a partial.\<close>


lemma before_align_fields:
  "pending_tokens (record_partial_history cfg toks now (entry_state cfg clk now_ms (count_partial s)))
     = pending_tokens s"
  "time_calls s \<le> time_calls (record_partial_history cfg toks now
                                  (entry_state cfg clk now_ms (count_partial s)))"
  by (simp_all add: resolve_now_def now_ms_of_def time_fn_def split: option.splits)


lemma add_partial_inv_fresh:
  assumes mono: "mono clk"
    and inv: "pending_inv clk (time_calls s) (pending_tokens s)"
  shows "\<exists>ev s'. add_partial cfg clk inp now_ms s = Inr (ev, s')
           \<and> pending_inv clk (time_calls s') (pending_tokens s')
           \<and> pending_fresh cfg (clk (time_calls s' - 1)) s'"
proof -
  let ?now = "call_now clk now_ms s"
  let ?s5 = "record_partial_history cfg (tokenize inp) ?now
               (entry_state cfg clk now_ms (count_partial s))"
  from add_partial_Inr [of clk inp cfg now_ms s] obtain s6 where
    s6: "align_pending clk (tokenize inp) ?s5 = Inr s6"
    and res: "add_partial cfg clk inp now_ms s =
            Inr (build_display_event False (exit_partial cfg clk ?now s6),
                 exit_partial cfg clk ?now s6)"
    by blast
  let ?s' = "exit_partial cfg clk ?now s6"
  let ?p = "snd (promote_collect cfg clk [] s6)"
  have "pending_inv clk (time_calls ?s5) (pending_tokens ?s5)"
    using pending_inv_mono [OF mono before_align_fields(2) inv] by (simp add: before_align_fields(1))
  then have inv6: "pending_inv clk (time_calls s6) (pending_tokens s6)"
    using s6 by (rule align_pending_inv [OF mono])
  note pc = promote_collect_result [of s6 cfg clk "[]"]
  have invp: "pending_inv clk (time_calls ?p) (pending_tokens ?p)"
    using pc inv6 by (auto intro: pending_inv_suffix [OF mono])
  have tc: "time_calls ?s' = time_calls ?p" by (rule exit_partial_time_calls)
  from exit_partial_pending [of cfg clk ?now s6]
  have "pending_inv clk (time_calls ?s') (pending_tokens ?s')
        \<and> pending_fresh cfg (clk (time_calls ?s' - 1)) ?s'"
  proof
    assume "pending_tokens ?s' = []"
    then show ?thesis by (simp add: pending_fresh_def)
  next
    assume eq: "pending_tokens ?s' = pending_tokens ?p \<and> time_calls ?s' = time_calls ?p"
    have "front_fresh cfg clk ?s'"
      using pc eq by (simp add: front_fresh_def split: list.splits)
    moreover have "pending_ordered (pending_tokens ?s')"
      using invp eq by (simp add: pending_inv_def)
    ultimately have "pending_fresh cfg (clk (time_calls ?s' - 1)) ?s'"
      by (rule front_fresh_ordered)
    with invp eq show ?thesis by simp
  qed
  with res show ?thesis by blast
qed


lemma add_final_pending:
  "\<exists>ev s'. add_final cfg clk inp now_ms s = Inr (ev, s') \<and> pending_tokens s' = []"
proof (cases "tokenize inp = []")
  case True
  then show ?thesis by (simp add: add_final_unfold)
next
  case False
  from rescue_step_total [of cfg "tokenize inp" "entry_state cfg clk now_ms (count_final s)"]
  obtain r where "rescue_step cfg (tokenize inp) (entry_state cfg clk now_ms (count_final s)) = Inr r"
    by blast
  with False show ?thesis by (simp add: add_final_unfold)
qed


lemma apply_call_inv:
  assumes mono: "mono clk"
    and inv: "pending_inv clk (time_calls s) (pending_tokens s)"
    and res: "apply_call cfg clk c s = Inr s'"
  shows "pending_inv clk (time_calls s') (pending_tokens s')"
proof (cases c)
  case (AddPartial inp now_ms)
  from add_partial_inv_fresh [OF mono inv, of cfg inp now_ms] res show ?thesis
    by (auto simp: AddPartial)
next
  case (AddFinal inp now_ms)
  from add_final_pending [of cfg clk inp now_ms s] res show ?thesis
    by (auto simp: AddFinal)
next
  case (ForceSegmentBreak now_ms)
  with res show ?thesis by auto
qed


lemma reachable_inv:
  assumes "mono clk" "reachable cfg clk s"
  shows "pending_inv clk (time_calls s) (pending_tokens s)"
  using assms(2)
proof (induction rule: reachable.induct)
  case reachable_init
  show ?case by (simp add: init_accumulator_def)
next
  case (reachable_call s c s')
  from apply_call_inv [OF assms(1) reachable_call.IH reachable_call.hyps(2)] show ?case .
next
  case (reachable_reset s)
  show ?case by (simp add: reset_def)
qed

subsection \<open>Pending freshness and pending order\<close>

lemma mono_fake_clock: "mono (fake_clock t)"
  by (simp add: mono_def fake_clock_def)

lemma mono_tenth_clock: "mono tenth_clock"
  by (simp add: mono_def tenth_clock_def divide_right_mono)

lemma aged_example_run:
  "apply_call default_config (fake_clock 0) (AddPartial ''a'' None) init_accumulator
     = Inr aged_example"
  by code_simp

lemma two_pending_example_run:
  "apply_call default_config tenth_clock (AddPartial ''a b'' None) init_accumulator
     = Inr two_pending_example"
  by code_simp

text \<open>
  Claim C4, amended. In every state reachable over a monotone clock, \<open>add_partial\<close>
  returns, and at the last clock value it has read every token left in \<open>pending_tokens\<close>
  is below the K threshold and its age is below the T threshold: the leftmost-only walk
  leaves no deeper token that meets a threshold. \<open>add_final\<close> and
  \<open>force_segment_break\<close> return with \<open>pending_tokens\<close> empty.
\<close>

theorem pending_fresh_after_state_changing_calls:
  assumes "mono clk" and "reachable cfg clk s"
  shows "(\<exists>ev s'. add_partial cfg clk inp now_ms s = Inr (ev, s')
            \<and> pending_fresh cfg (clk (time_calls s' - 1)) s')
       \<and> (\<exists>ev s'. add_final cfg clk inp now_ms s = Inr (ev, s') \<and> pending_tokens s' = [])
       \<and> pending_tokens (force_segment_break cfg clk now_ms s) = []"
proof -
  have inv: "pending_inv clk (time_calls s) (pending_tokens s)"
    using assms by (rule reachable_inv)
  from add_partial_inv_fresh [OF assms(1) inv, of cfg inp now_ms]
  have "\<exists>ev s'. add_partial cfg clk inp now_ms s = Inr (ev, s')
            \<and> pending_fresh cfg (clk (time_calls s' - 1)) s'"
    by blast
  with add_final_pending [of cfg clk inp now_ms s] show ?thesis by simp
qed

theorem pending_fresh_after_state_changing_calls_witness:
  "mono tenth_clock \<and> reachable default_config tenth_clock two_pending_example
   \<and> (\<exists>ev s'. add_partial default_config tenth_clock ''a b c'' None two_pending_example
                 = Inr (ev, s')
          \<and> pending_fresh default_config (tenth_clock (time_calls s' - 1)) s')
   \<and> (\<exists>ev s'. add_final default_config tenth_clock ''a b'' None two_pending_example
                 = Inr (ev, s')
          \<and> pending_tokens s' = [])
   \<and> pending_tokens (force_segment_break default_config tenth_clock None two_pending_example) = []"
proof -
  have reach: "reachable default_config tenth_clock two_pending_example"
    using reachable_call [OF reachable_init two_pending_example_run] .
  from pending_fresh_after_state_changing_calls [OF mono_tenth_clock reach, of "''a b c''" None]
    pending_fresh_after_state_changing_calls [OF mono_tenth_clock reach, of "''a b''" None]
  show ?thesis using mono_tenth_clock reach by blast
qed

text \<open>
  The claim as first stated fails for the read-only operations, which promote nothing:
  the token pending since \<open>t = 0\<close> is still pending when \<open>build_display_event\<close> runs at
  \<open>t = 2\<close>, beyond \<open>T = 1.4\<close>.
\<close>

theorem pending_token_ages_during_display:
  "apply_call default_config (fake_clock 0) (AddPartial ''a'' None) init_accumulator
     = Inr aged_example
   \<and> md_pending_tokens (build_display_event False aged_example) = 1
   \<and> \<not> pending_fresh default_config 2 aged_example"
proof -
  have "md_pending_tokens (build_display_event False aged_example) = 1"
    by (simp add: build_display_event_def aged_example_def)
  moreover have "\<not> pending_fresh default_config 2 aged_example"
    by (simp add: pending_fresh_def aged_example_def default_config_def py_int_def)
  ultimately show ?thesis using aged_example_run by simp
qed

text \<open>
  Claim C10. In every state reachable over a monotone clock, \<open>pending_tokens\<close> is ordered
  from front to back: \<open>confirmation_count\<close> does not increase and \<open>first_seen_time\<close>
  does not decrease.
\<close>

theorem pending_ordered_reachable:
  assumes "mono clk" and "reachable cfg clk s"
  shows "pending_ordered (pending_tokens s)"
  using reachable_inv [OF assms] by (simp add: pending_inv_def)

theorem pending_ordered_reachable_witness:
  "mono tenth_clock \<and> reachable default_config tenth_clock two_pending_example
   \<and> pending_ordered (pending_tokens two_pending_example)
   \<and> map first_seen_time (pending_tokens two_pending_example) = [1 / 10, 2 / 10]"
proof -
  have reach: "reachable default_config tenth_clock two_pending_example"
    using reachable_call [OF reachable_init two_pending_example_run] .
  from pending_ordered_reachable [OF mono_tenth_clock reach]
  show ?thesis using mono_tenth_clock reach by (simp add: two_pending_example_def)
qed

subsection \<open>Dependence on the clock\<close>


lemma clocks_agree_at:
  assumes "clocks_agree clk clk' a b" "a \<le> k" "k < b"
  shows "clk' k = clk k"
  using assms by (auto simp: clocks_agree_def)
















lemma resolve_now_count_time_calls [simp]:
  "time_calls (snd (resolve_now clk now_ms (count_partial s))) = time_calls (snd (resolve_now clk now_ms s))"
  "time_calls (snd (resolve_now clk now_ms (count_final s))) = time_calls (snd (resolve_now clk now_ms s))"
  by (simp_all add: resolve_now_def now_ms_of_def time_fn_def count_partial_def count_final_def
        split: option.splits)










end
